theory Spec2Isabelle
  imports Main
begin

section \<open>Python values used by the generators\<close>

text \<open>
  Both scripts (\<^verbatim>\<open>vgen_rand.py\<close>, \<^verbatim>\<open>vgen_lfsr.py\<close>) work on Python integers, strings,
  lists and sets of integers.  Integers are \<^typ>\<open>int\<close>, strings are \<^typ>\<open>string\<close>,
  a set of seed-bit indices is an \<^typ>\<open>int set\<close>.  Every exception the scripts can
  raise is a value of \<open>error\<close>; the two \<^verbatim>\<open>assert\<close> statements of
  \<^verbatim>\<open>parse_polynomial\<close> both raise \<^verbatim>\<open>AssertionError\<close> and are told apart by the
  statement that raised.
\<close>

datatype error =
    MalformedPolynomial   \<comment> \<open>\<^verbatim>\<open>assert gen_poly.startswith('0b') or gen_poly.startswith('0x')\<close>\<close>
  | ZeroPolynomial        \<comment> \<open>\<^verbatim>\<open>assert eval(gen_poly) != 0\<close>\<close>
  | EvalError             \<comment> \<open>an exception raised inside \<^verbatim>\<open>eval\<close> (a \<^verbatim>\<open>SyntaxError\<close>, a \<^verbatim>\<open>NameError\<close>, ...)\<close>
  | TypeError             \<comment> \<open>\<^verbatim>\<open>bin\<close> or \<^verbatim>\<open>hex\<close> applied to a value that is no integer\<close>
  | IndexError            \<comment> \<open>list index out of range\<close>

text \<open>
  \<^verbatim>\<open>eval\<close> is Python's builtin, not code of the scripts, and it evaluates any
  expression.  The scripts see of a call \<^verbatim>\<open>eval(s)\<close> only this: it raises, or it returns
  an integer (\<^verbatim>\<open>True\<close> and \<^verbatim>\<open>False\<close> count as 1 and 0), or it returns another object,
  of which \<^verbatim>\<open>parse_polynomial\<close> observes whether \<^verbatim>\<open>value != 0\<close> holds.  Every function
  that calls \<^verbatim>\<open>eval\<close> takes the builtin as its first argument \<open>ev\<close>, a function of the
  string; an expression that writes files or prints is outside this model.
\<close>

datatype eval_result =
    Raises
  | IntVal int
  | OtherVal bool   \<comment> \<open>the flag is the truth of \<^verbatim>\<open>value != 0\<close>\<close>

text \<open>\<^verbatim>\<open>range(n)\<close>: the integers \<open>0, ..., n-1\<close>, empty when \<open>n \<le> 0\<close>.\<close>

definition py_range :: "int \<Rightarrow> int list" where
  "py_range n = map int [0..<nat n]"

text \<open>\<^verbatim>\<open>range(a, b, -1)\<close>: the integers \<open>a, a-1, ..., b+1\<close>, empty when \<open>a \<le> b\<close>.\<close>

definition py_range_down :: "int \<Rightarrow> int \<Rightarrow> int list" where
  "py_range_down a b = map (\<lambda>j. a - int j) [0..<nat (a - b)]"

text \<open>\<^verbatim>\<open>xs[i]\<close> and \<^verbatim>\<open>xs[i] = v\<close>: a negative index counts from the end, an index outside
  \<open>[-len, len)\<close> raises \<^verbatim>\<open>IndexError\<close>.\<close>

definition py_index :: "nat \<Rightarrow> int \<Rightarrow> nat option" where
  "py_index len i =
     (if 0 \<le> i \<and> i < int len then Some (nat i)
      else if i < 0 \<and> - int len \<le> i then Some (nat (int len + i))
      else None)"

definition py_get :: "'a list \<Rightarrow> int \<Rightarrow> error + 'a" where
  "py_get xs i = (case py_index (length xs) i of None \<Rightarrow> Inl IndexError | Some j \<Rightarrow> Inr (xs ! j))"

definition py_set :: "'a list \<Rightarrow> int \<Rightarrow> 'a \<Rightarrow> error + 'a list" where
  "py_set xs i v =
     (case py_index (length xs) i of None \<Rightarrow> Inl IndexError | Some j \<Rightarrow> Inr (xs[j := v]))"

section \<open>The symbolic cycle expander (\<^verbatim>\<open>vgen_rand.py\<close>)\<close>

text \<open>\<^verbatim>\<open>xor_two_sets(set1, set2)\<close>:
  \<^verbatim>\<open>set.union(set1, set2) - set.intersection(set1, set2)\<close>.\<close>

definition xor_two_sets :: "int set \<Rightarrow> int set \<Rightarrow> int set" where
  "xor_two_sets set1 set2 = (set1 \<union> set2) - (set1 \<inter> set2)"

text \<open>The symmetric difference as the specification words it: the elements that are in
  exactly one of the two sets.\<close>

definition sym_diff :: "int set \<Rightarrow> int set \<Rightarrow> int set" where
  "sym_diff A B = (A - B) \<union> (B - A)"

text \<open>The inner loop of \<^verbatim>\<open>gen_random\<close>:
  \<^verbatim>\<open>for oo in range(len(one_indices)): xor_out = xor_two_sets(xor_out, cur_sets[one_indices[oo]])\<close>.\<close>

fun xor_taps :: "int set list \<Rightarrow> int list \<Rightarrow> int set \<Rightarrow> error + int set" where
  "xor_taps cur_sets [] xor_out = Inr xor_out"
| "xor_taps cur_sets (t # ts) xor_out =
     (case py_get cur_sets t of
        Inl e \<Rightarrow> Inl e
      | Inr c \<Rightarrow> xor_taps cur_sets ts (xor_two_sets xor_out c))"

text \<open>The shift loop:
  \<^verbatim>\<open>for ii in range(lfsr_len-1,0,-1): cur_sets[ii] = cur_sets[ii-1]\<close>, an in-place update
  from the highest index downwards.\<close>

fun shift_sets :: "int list \<Rightarrow> int set list \<Rightarrow> error + int set list" where
  "shift_sets [] cur_sets = Inr cur_sets"
| "shift_sets (ii # iis) cur_sets =
     (case py_get cur_sets (ii - 1) of
        Inl e \<Rightarrow> Inl e
      | Inr v \<Rightarrow>
          (case py_set cur_sets ii v of
             Inl e \<Rightarrow> Inl e
           | Inr cur_sets' \<Rightarrow> shift_sets iis cur_sets'))"

text \<open>One pass of the body of \<^verbatim>\<open>for ww in range(rand_wd)\<close>: the feedback term, the
  shift, \<^verbatim>\<open>cur_sets[0] = xor_out\<close>; it returns the new snapshot and the term appended to
  \<^verbatim>\<open>rand_out\<close>.\<close>

definition gen_cycle :: "int \<Rightarrow> int list \<Rightarrow> int set list \<Rightarrow> error + (int set list \<times> int set)" where
  "gen_cycle lfsr_len one_indices cur_sets =
     (case xor_taps cur_sets one_indices {} of
        Inl e \<Rightarrow> Inl e
      | Inr xor_out \<Rightarrow>
          (case shift_sets (py_range_down (lfsr_len - 1) 0) cur_sets of
             Inl e \<Rightarrow> Inl e
           | Inr shifted \<Rightarrow>
               (case py_set shifted 0 xor_out of
                  Inl e \<Rightarrow> Inl e
                | Inr cur_sets' \<Rightarrow> Inr (cur_sets', xor_out))))"

fun gen_loop :: "nat \<Rightarrow> int \<Rightarrow> int list \<Rightarrow> int set list \<Rightarrow> int set list \<Rightarrow> error + int set list" where
  "gen_loop 0 lfsr_len one_indices cur_sets rand_out = Inr rand_out"
| "gen_loop (Suc n) lfsr_len one_indices cur_sets rand_out =
     (case gen_cycle lfsr_len one_indices cur_sets of
        Inl e \<Rightarrow> Inl e
      | Inr (cur_sets', xor_out) \<Rightarrow>
          gen_loop n lfsr_len one_indices cur_sets' (rand_out @ [xor_out]))"

text \<open>\<^verbatim>\<open>gen_random(lfsr_len, one_indices, rand_wd)\<close>: \<^verbatim>\<open>range(rand_wd)\<close> has
  \<open>nat rand_wd\<close> elements, none for a negative \<open>rand_wd\<close>.\<close>

definition gen_random :: "int \<Rightarrow> int list \<Rightarrow> int \<Rightarrow> error + int set list" where
  "gen_random lfsr_len one_indices rand_wd =
     gen_loop (length (py_range rand_wd)) lfsr_len one_indices
       (map (\<lambda>ii. {ii}) (py_range lfsr_len)) []"

section \<open>The expander as the specification describes it\<close>

text \<open>
  The specification's algorithm on a register snapshot (a list of \<open>width\<close> terms):
  cell \<open>i\<close> starts as \<open>{i}\<close>; each cycle the feedback term is the repeated symmetric
  difference of the cells at the tap indices; it is recorded, every cell \<open>i \<ge> 1\<close> takes
  the previous value of cell \<open>i - 1\<close> and cell \<open>0\<close> takes the feedback term.
\<close>

definition initial_snapshot :: "nat \<Rightarrow> int set list" where
  "initial_snapshot width = map (\<lambda>i. {int i}) [0..<width]"

definition feedback_term :: "nat list \<Rightarrow> int set list \<Rightarrow> int set" where
  "feedback_term taps snap = foldl sym_diff {} (map (\<lambda>t. snap ! t) taps)"

definition shift_snapshot :: "int set \<Rightarrow> int set list \<Rightarrow> int set list" where
  "shift_snapshot fb snap = map (\<lambda>i. if i = 0 then fb else snap ! (i - 1)) [0..<length snap]"

fun expand :: "nat \<Rightarrow> nat list \<Rightarrow> int set list \<Rightarrow> int set list" where
  "expand 0 taps snap = []"
| "expand (Suc n) taps snap =
     feedback_term taps snap # expand n taps (shift_snapshot (feedback_term taps snap) snap)"

definition output_schedule :: "nat \<Rightarrow> nat list \<Rightarrow> nat \<Rightarrow> int set list" where
  "output_schedule width taps N = expand N taps (initial_snapshot width)"

text \<open>The snapshot after \<open>k\<close> cycles.\<close>

fun snapshot_at :: "nat \<Rightarrow> nat list \<Rightarrow> int set list \<Rightarrow> int set list" where
  "snapshot_at 0 taps snap = snap"
| "snapshot_at (Suc k) taps snap = snapshot_at k taps (shift_snapshot (feedback_term taps snap) snap)"

section \<open>Python string and number helpers\<close>

text \<open>\<^verbatim>\<open>s.startswith(p)\<close>.\<close>

definition startswith :: "string \<Rightarrow> string \<Rightarrow> bool" where
  "startswith s p = (take (length p) s = p)"

text \<open>The digits of a natural number in a base from 2 to 16, most significant first, as
  \<^verbatim>\<open>bin\<close>, \<^verbatim>\<open>hex\<close> and the \<^verbatim>\<open>%d\<close> conversion print them.\<close>

definition digit_char :: "nat \<Rightarrow> char" where
  "digit_char d = ''0123456789abcdef'' ! d"

function to_digits :: "nat \<Rightarrow> nat \<Rightarrow> string" where
  "to_digits base n =
     (if base < 2 \<or> n < base then [digit_char n]
      else to_digits base (n div base) @ [digit_char (n mod base)])"
  by pat_completeness auto
termination
  by (relation "measure snd") (auto intro: div_less_dividend)

declare to_digits.simps [simp del]

definition py_bin :: "int \<Rightarrow> string" where
  "py_bin v = (if v < 0 then ''-0b'' @ to_digits 2 (nat (- v)) else ''0b'' @ to_digits 2 (nat v))"


text \<open>The \<^verbatim>\<open>%d\<close> conversion of an integer.\<close>

definition py_str :: "int \<Rightarrow> string" where
  "py_str v = (if v < 0 then ''-'' @ to_digits 10 (nat (- v)) else to_digits 10 (nat v))"

section \<open>The polynomial parser (identical in both scripts)\<close>

text \<open>
  \<^verbatim>\<open>parse_polynomial(gen_poly)\<close>: the prefix assertion; for a string that starts with
  \<^verbatim>\<open>0x\<close>, \<^verbatim>\<open>gen_poly = bin(eval(gen_poly))\<close>; the assertion \<^verbatim>\<open>eval(gen_poly) != 0\<close>;
  then \<^verbatim>\<open>bin_str = gen_poly[2:]\<close>, \<^verbatim>\<open>lfsr_len = len(bin_str)\<close> and the loop that appends
  \<^verbatim>\<open>lfsr_len-1-ii\<close> for every \<^verbatim>\<open>ii\<close> with \<^verbatim>\<open>bin_str[ii]=='1'\<close>.
\<close>

definition one_indices_of :: "string \<Rightarrow> int list" where
  "one_indices_of bin_str =
     map (\<lambda>ii. int (length bin_str) - 1 - ii)
       (filter (\<lambda>ii. bin_str ! nat ii = CHR ''1'') (py_range (int (length bin_str))))"

text \<open>\<^verbatim>\<open>bin(eval(gen_poly))\<close>.\<close>

definition bin_of_eval :: "eval_result \<Rightarrow> error + string" where
  "bin_of_eval r =
     (case r of
        Raises \<Rightarrow> Inl EvalError
      | IntVal v \<Rightarrow> Inr (py_bin v)
      | OtherVal nonzero \<Rightarrow> Inl TypeError)"

definition parse_polynomial :: "(string \<Rightarrow> eval_result) \<Rightarrow> string \<Rightarrow> error + (int \<times> int list)" where
  "parse_polynomial ev gen_poly =
     (if \<not> (startswith gen_poly ''0b'' \<or> startswith gen_poly ''0x'') then Inl MalformedPolynomial
      else
        (case (if startswith gen_poly ''0x'' then bin_of_eval (ev gen_poly) else Inr gen_poly) of
           Inl e \<Rightarrow> Inl e
         | Inr gen_poly' \<Rightarrow>
             (case ev gen_poly' of
                Raises \<Rightarrow> Inl EvalError
              | IntVal v \<Rightarrow>
                  if v = 0 then Inl ZeroPolynomial
                  else Inr (int (length (drop 2 gen_poly')), one_indices_of (drop 2 gen_poly'))
              | OtherVal nonzero \<Rightarrow>
                  if \<not> nonzero then Inl ZeroPolynomial
                  else Inr (int (length (drop 2 gen_poly')), one_indices_of (drop 2 gen_poly')))))"

text \<open>
  Two facts about Python's \<^verbatim>\<open>eval\<close> that the proofs below use: the bare prefix
  \<^verbatim>\<open>0b\<close> is a syntax error, and \<^verbatim>\<open>eval(bin(v)) == v\<close> for every integer \<open>v\<close>.
\<close>

definition python_eval :: "(string \<Rightarrow> eval_result) \<Rightarrow> bool" where
  "python_eval ev = (ev ''0b'' = Raises \<and> (\<forall>v. ev (py_bin v) = IntVal v))"

subsection \<open>An evaluator to run the parser on concrete strings\<close>

text \<open>
  Python's integer literals of base 2 and 16: \<^verbatim>\<open>"0b" (["_"] bindigit)+\<close> and
  \<^verbatim>\<open>"0x" (["_"] hexdigit)+\<close>.
\<close>

definition bin_digit :: "char \<Rightarrow> nat option" where
  "bin_digit c = (if c = CHR ''0'' then Some 0 else if c = CHR ''1'' then Some 1 else None)"

definition hex_digit :: "char \<Rightarrow> nat option" where
  "hex_digit c =
     map_of (zip ''0123456789abcdef'' [0..<16] @ zip ''ABCDEF'' [10..<16]) c"

fun digit_groups :: "(char \<Rightarrow> nat option) \<Rightarrow> string \<Rightarrow> nat list option" where
  "digit_groups digit [] = Some []"
| "digit_groups digit (c # cs) =
     (if c = CHR ''_'' then
        (case cs of
           [] \<Rightarrow> None
         | c' # cs' \<Rightarrow>
             (case digit c' of
                None \<Rightarrow> None
              | Some v \<Rightarrow> map_option ((#) v) (digit_groups digit cs')))
      else
        (case digit c of
           None \<Rightarrow> None
         | Some v \<Rightarrow> map_option ((#) v) (digit_groups digit cs)))"

definition int_literal :: "nat \<Rightarrow> (char \<Rightarrow> nat option) \<Rightarrow> string \<Rightarrow> int option" where
  "int_literal base digit ds =
     (case digit_groups digit ds of
        None \<Rightarrow> None
      | Some [] \<Rightarrow> None
      | Some (v # vs) \<Rightarrow> Some (int (foldl (\<lambda>a d. base * a + d) 0 (v # vs))))"

definition literal_value :: "string \<Rightarrow> int option" where
  "literal_value s =
     (if startswith s ''0b'' then int_literal 2 bin_digit (drop 2 s)
      else if startswith s ''0x'' then int_literal 16 hex_digit (drop 2 s)
      else None)"

text \<open>
  \<open>literal_sum_eval\<close> is \<^verbatim>\<open>eval\<close> on one family of strings: an optional minus sign,
  then binary or hexadecimal integer literals joined by \<^verbatim>\<open>+\<close> or \<^verbatim>\<open>-\<close> with no blanks
  (\<^verbatim>\<open>0b110110\<close>, \<^verbatim>\<open>0x36\<close>, \<^verbatim>\<open>-0b10\<close>, \<^verbatim>\<open>0b0+0x2\<close>).  On such a string it returns the
  integer Python computes.  Everywhere else it answers \<open>Raises\<close>, as Python does on
  the bare prefixes \<^verbatim>\<open>0b\<close> and \<^verbatim>\<open>0x\<close>; on other strings outside the family Python may
  do otherwise.  It serves to run the parser on concrete strings of the family and on
  the bare prefix; every general statement below is proved for any \<open>ev\<close>.
\<close>

fun signed_terms :: "bool \<Rightarrow> string \<Rightarrow> string \<Rightarrow> (bool \<times> string) list" where
  "signed_terms neg cur [] = [(neg, cur)]"
| "signed_terms neg cur (c # cs) =
     (if c = CHR ''+'' then (neg, cur) # signed_terms False [] cs
      else if c = CHR ''-'' then (neg, cur) # signed_terms True [] cs
      else signed_terms neg (cur @ [c]) cs)"

fun sum_terms :: "(bool \<times> string) list \<Rightarrow> int option" where
  "sum_terms [] = Some 0"
| "sum_terms ((neg, s) # ts) =
     (case literal_value s of
        None \<Rightarrow> None
      | Some v \<Rightarrow> map_option (\<lambda>r. (if neg then - v else v) + r) (sum_terms ts))"

definition literal_sum_eval :: "string \<Rightarrow> eval_result" where
  "literal_sum_eval s =
     (case sum_terms (case s of
                        [] \<Rightarrow> signed_terms False [] []
                      | c # cs \<Rightarrow> if c = CHR ''-'' then signed_terms True [] cs
                                  else signed_terms False [] s) of
        None \<Rightarrow> Raises
      | Some v \<Rightarrow> IntVal v)"

section \<open>The emitted text\<close>


definition indent :: string where
  "indent = ''    ''"

text \<open>The loop shared by both \<^verbatim>\<open>gen_verilog\<close> functions:
  \<^verbatim>\<open>for ii in range(lfsr_len-1,-1,-1)\<close> appends \<^verbatim>\<open>'1'\<close> and \<^verbatim>\<open>"x^%d + " %(ii+1)\<close> when
  \<^verbatim>\<open>ii in one_indices\<close>, and \<^verbatim>\<open>'0'\<close> otherwise.\<close>

definition tap_bits :: "int \<Rightarrow> int list \<Rightarrow> string" where
  "tap_bits lfsr_len one_indices =
     map (\<lambda>ii. if ii \<in> set one_indices then CHR ''1'' else CHR ''0'')
       (py_range_down (lfsr_len - 1) (- 1))"

definition poly_str :: "int \<Rightarrow> int list \<Rightarrow> string" where
  "poly_str lfsr_len one_indices =
     concat (map (\<lambda>ii. if ii \<in> set one_indices then ''x^'' @ py_str (ii + 1) @ '' + '' else [])
       (py_range_down (lfsr_len - 1) (- 1))) @ ''1''"

subsection \<open>Sequential module (\<^verbatim>\<open>vgen_lfsr.py\<close>)\<close>

definition lfsr_name :: "int \<Rightarrow> int list \<Rightarrow> string \<Rightarrow> string" where
  "lfsr_name lfsr_len one_indices prefix =
     prefix @ ''_lfsr_'' @ py_str lfsr_len @ ''_'' @ tap_bits lfsr_len one_indices"

definition lfsr_header :: "int \<Rightarrow> int list \<Rightarrow> string \<Rightarrow> string" where
  "lfsr_header lfsr_len one_indices prefix =
     replicate 80 CHR ''/'' @ [CHR 0x0A] @
     ''///// Generated code. Don't modify! '' @ [CHR 0x0A] @
     ''///// Author: Anh Tran (Andrew) '' @ [CHR 0x0A] @
     ''///// This module computes '' @ py_str lfsr_len @ ''-bit LFSR bits from an input seed '' @ [CHR 0x0A] @
     ''///// based on the LFSR polynomial: '' @ poly_str lfsr_len one_indices @ '' '' @ [CHR 0x0A] @
     replicate 80 CHR ''/'' @ [CHR 0x0A] @
     ''module '' @ lfsr_name lfsr_len one_indices prefix @ '' ('' @ [CHR 0x0A] @
     indent @ ''input    clk,'' @ [CHR 0x0A] @
     indent @ ''input    rst,'' @ [CHR 0x0A, CHR 0x0A] @
     indent @ ''input ['' @ py_str lfsr_len @ ''-1:0]   seed, '' @ [CHR 0x0A] @
     indent @ ''output ['' @ py_str lfsr_len @ ''-1:0]  lfsr'' @ [CHR 0x0A] @
     indent @ '');'' @ [CHR 0x0A, CHR 0x0A]"

text \<open>The feedback equation: \<^verbatim>\<open>"%sassign fb = lsfr[%d]" %(indent, one_indices[0])\<close>, then
  \<^verbatim>\<open>" ^ lsfr[%d]" %(oo)\<close> for every \<^verbatim>\<open>oo in one_indices[1:]\<close>.\<close>

definition lfsr_feedback :: "int list \<Rightarrow> error + string" where
  "lfsr_feedback one_indices =
     (case py_get one_indices 0 of
        Inl e \<Rightarrow> Inl e
      | Inr t0 \<Rightarrow>
          Inr (indent @ ''logic    fb; // feedback bit'' @ [CHR 0x0A] @
               indent @ ''assign fb = lsfr['' @ py_str t0 @ '']'' @
               (if length one_indices > 1
                then concat (map (\<lambda>oo. '' ^ lsfr['' @ py_str oo @ '']'') (drop 1 one_indices))
                else []) @
               '';'' @ [CHR 0x0A, CHR 0x0A]))"

definition lfsr_process :: "int \<Rightarrow> string" where
  "lfsr_process lfsr_len =
     indent @ ''always @(posedge clk) begin'' @ [CHR 0x0A] @
     indent @ indent @ ''if (rst) begin'' @ [CHR 0x0A] @
     indent @ indent @ indent @ ''lfsr <= seed;'' @ [CHR 0x0A] @
     indent @ indent @ ''end'' @ [CHR 0x0A] @
     indent @ indent @ ''else begin'' @ [CHR 0x0A] @
     indent @ indent @ indent @ ''lfsr <= {lsfr['' @ py_str (lfsr_len - 2) @ '':0], fb};'' @ [CHR 0x0A] @
     indent @ indent @ ''end'' @ [CHR 0x0A] @
     indent @ ''end'' @ [CHR 0x0A] @
     [CHR 0x0A] @ ''endmodule'' @ [CHR 0x0A]"

definition lfsr_code :: "int \<Rightarrow> int list \<Rightarrow> string \<Rightarrow> error + string" where
  "lfsr_code lfsr_len one_indices prefix =
     (case lfsr_feedback one_indices of
        Inl e \<Rightarrow> Inl e
      | Inr fb \<Rightarrow> Inr (lfsr_header lfsr_len one_indices prefix @ fb @ lfsr_process lfsr_len))"



subsection \<open>Parallel module (\<^verbatim>\<open>vgen_rand.py\<close>)\<close>

text \<open>
  \<^verbatim>\<open>gen_verilog\<close> reads a term through \<^verbatim>\<open>list(rand_out[ww])\<close>.  The order in which
  Python lists the elements of a set is not fixed by the script, so the emitter takes it
  as the parameter \<open>to_list\<close>; \<^verbatim>\<open>len(rand_out[ww])\<close> is the number of elements.
  \<open>iteration_order\<close> says what every Python set guarantees: each element is listed
  exactly once.
\<close>

definition iteration_order :: "(int set \<Rightarrow> int list) \<Rightarrow> bool" where
  "iteration_order to_list = (\<forall>S. finite S \<longrightarrow> set (to_list S) = S \<and> distinct (to_list S))"

text \<open>\<^verbatim>\<open>range(a, b)\<close>.\<close>

definition py_range_from :: "int \<Rightarrow> int \<Rightarrow> int list" where
  "py_range_from a b = map (\<lambda>j. a + int j) [0..<nat (b - a)]"

text \<open>\<^verbatim>\<open>for ii in range(1,len(rand_out[ww])): code += " ^ seed[%d]" %(list(rand_out[ww])[ii])\<close>.\<close>

fun chain_rest :: "int list \<Rightarrow> int list \<Rightarrow> error + string" where
  "chain_rest xs [] = Inr []"
| "chain_rest xs (ii # iis) =
     (case py_get xs ii of
        Inl e \<Rightarrow> Inl e
      | Inr i \<Rightarrow>
          (case chain_rest xs iis of
             Inl e \<Rightarrow> Inl e
           | Inr r \<Rightarrow> Inr ('' ^ seed['' @ py_str i @ '']'' @ r)))"

text \<open>One pass of \<^verbatim>\<open>for ww in range(len(rand_out))\<close>: the statement for output bit
  \<open>ww\<close>; \<^verbatim>\<open>list(rand_out[ww])[0]\<close> raises \<^verbatim>\<open>IndexError\<close> on an empty term.\<close>

definition rand_assign :: "(int set \<Rightarrow> int list) \<Rightarrow> int set list \<Rightarrow> int \<Rightarrow> error + string" where
  "rand_assign to_list rand_out ww =
     (case py_get rand_out ww of
        Inl e \<Rightarrow> Inl e
      | Inr term \<Rightarrow>
          (case py_get (to_list term) 0 of
             Inl e \<Rightarrow> Inl e
           | Inr i0 \<Rightarrow>
               (case chain_rest (to_list term) (py_range_from 1 (int (card term))) of
                  Inl e \<Rightarrow> Inl e
                | Inr rest \<Rightarrow>
                    Inr (indent @ ''assign out['' @ py_str ww @ ''] = seed['' @ py_str i0 @ '']'' @
                         rest @ '';'' @ [CHR 0x0A]))))"

fun rand_assigns :: "(int set \<Rightarrow> int list) \<Rightarrow> int set list \<Rightarrow> int list \<Rightarrow> error + string" where
  "rand_assigns to_list rand_out [] = Inr []"
| "rand_assigns to_list rand_out (ww # wws) =
     (case rand_assign to_list rand_out ww of
        Inl e \<Rightarrow> Inl e
      | Inr s \<Rightarrow>
          (case rand_assigns to_list rand_out wws of
             Inl e \<Rightarrow> Inl e
           | Inr r \<Rightarrow> Inr (s @ r)))"


definition rand_name :: "int set list \<Rightarrow> int \<Rightarrow> string \<Rightarrow> string \<Rightarrow> string" where
  "rand_name rand_out lfsr_len prefix sfx =
     prefix @ ''_rand_'' @ py_str lfsr_len @ ''_'' @ py_str (int (length rand_out)) @ ''_'' @ sfx"

definition rand_header :: "int set list \<Rightarrow> int \<Rightarrow> int list \<Rightarrow> string \<Rightarrow> string \<Rightarrow> string" where
  "rand_header rand_out lfsr_len one_indices prefix sfx =
     replicate 80 CHR ''/'' @ [CHR 0x0A] @
     ''///// Generated code. Don't modify! '' @ [CHR 0x0A] @
     ''///// Author: Anh Tran (Andrew) '' @ [CHR 0x0A] @
     ''///// This module parallelly computes a '' @ py_str (int (length rand_out)) @
       ''-bit pseudo random output from '' @ py_str lfsr_len @ ''-bit input seed '' @ [CHR 0x0A] @
     ''///// based on the LFSR polynomial: '' @ poly_str lfsr_len one_indices @ '' '' @ [CHR 0x0A] @
     replicate 80 CHR ''/'' @ [CHR 0x0A] @
     ''module '' @ rand_name rand_out lfsr_len prefix sfx @ '' ('' @ [CHR 0x0A] @
     indent @ ''input ['' @ py_str lfsr_len @ ''-1:0]   seed, '' @ [CHR 0x0A] @
     indent @ ''output ['' @ py_str (int (length rand_out)) @ ''-1:0]  out'' @ [CHR 0x0A] @
     indent @ '');'' @ [CHR 0x0A, CHR 0x0A]"

definition rand_code ::
  "(int set \<Rightarrow> int list) \<Rightarrow> int set list \<Rightarrow> int \<Rightarrow> int list \<Rightarrow> string \<Rightarrow> string \<Rightarrow> error + string" where
  "rand_code to_list rand_out lfsr_len one_indices prefix sfx =
     (case rand_assigns to_list rand_out (py_range (int (length rand_out))) of
        Inl e \<Rightarrow> Inl e
      | Inr body \<Rightarrow>
          Inr (rand_header rand_out lfsr_len one_indices prefix sfx @ body @
               [CHR 0x0A] @ ''endmodule'' @ [CHR 0x0A]))"



text \<open>Two iteration orders: ascending, and descending.\<close>

definition ascending_order :: "int set \<Rightarrow> int list" where
  "ascending_order S = sorted_list_of_set S"

definition descending_order :: "int set \<Rightarrow> int list" where
  "descending_order S = rev (sorted_list_of_set S)"

text \<open>The chain the specification asks for: \<^verbatim>\<open>seed[i]\<close> for each index, joined by
  \<^verbatim>\<open> ^ \<close>.\<close>

fun xor_chain :: "int list \<Rightarrow> string" where
  "xor_chain [] = []"
| "xor_chain [i] = ''seed['' @ py_str i @ '']''"
| "xor_chain (i # j # js) = ''seed['' @ py_str i @ '']'' @ '' ^ '' @ xor_chain (j # js)"

definition assign_stmt :: "nat \<Rightarrow> int list \<Rightarrow> string" where
  "assign_stmt k idxs =
     indent @ ''assign out['' @ py_str (int k) @ ''] = '' @ xor_chain idxs @ '';'' @ [CHR 0x0A]"

section \<open>A concrete bit-level LFSR\<close>

text \<open>
  The sequential step rule of the specification on a register of bits (cell \<open>0\<close> is the
  least significant): the feedback bit is the XOR of the register bits at the tap
  indices; every cell \<open>i \<ge> 1\<close> takes the bit of cell \<open>i - 1\<close>, cell \<open>0\<close> takes the
  feedback bit, the bit of the most significant cell is dropped.
\<close>

definition feedback_bit :: "nat list \<Rightarrow> bool list \<Rightarrow> bool" where
  "feedback_bit taps reg = foldl (\<lambda>a b. a \<noteq> b) False (map (\<lambda>t. reg ! t) taps)"

definition lfsr_step :: "nat list \<Rightarrow> bool list \<Rightarrow> bool list" where
  "lfsr_step taps reg =
     map (\<lambda>i. if i = 0 then feedback_bit taps reg else reg ! (i - 1)) [0..<length reg]"

fun lfsr_run :: "nat \<Rightarrow> nat list \<Rightarrow> bool list \<Rightarrow> bool list" where
  "lfsr_run 0 taps reg = reg"
| "lfsr_run (Suc k) taps reg = lfsr_run k taps (lfsr_step taps reg)"

text \<open>The feedback bit the simulation computes at cycle \<open>k\<close> from a seed.\<close>

definition sim_feedback :: "nat list \<Rightarrow> bool list \<Rightarrow> nat \<Rightarrow> bool" where
  "sim_feedback taps seed k = feedback_bit taps (lfsr_run k taps seed)"

text \<open>A symbolic term read on a concrete seed: the XOR of the seed bits at the indices
  of the term, that is, whether an odd number of them is set.\<close>

definition xor_seed_bits :: "bool list \<Rightarrow> int set \<Rightarrow> bool" where
  "xor_seed_bits seed term = odd (card (Set.filter (\<lambda>i. seed ! nat i) term))"

section \<open>The script's loops compute the specification's expander\<close>

lemma xor_two_sets_sym_diff: "xor_two_sets A B = sym_diff A B"
  by (auto simp: xor_two_sets_def sym_diff_def)

lemma py_get_in_range: "0 \<le> i \<Longrightarrow> i < int (length xs) \<Longrightarrow> py_get xs i = Inr (xs ! nat i)"
  by (simp add: py_get_def py_index_def)

lemma xor_taps_foldl:
  "\<forall>t\<in>set ts. 0 \<le> t \<and> t < int (length cs) \<Longrightarrow>
   xor_taps cs ts acc = Inr (foldl sym_diff acc (map (\<lambda>t. cs ! t) (map nat ts)))"
  by (induction ts arbitrary: acc) (simp_all add: py_get_in_range xor_two_sets_sym_diff)

lemma py_range_down_Suc: "py_range_down (int (Suc m)) 0 = int (Suc m) # py_range_down (int m) 0"
proof -
  have "[0..<Suc m] = 0 # map Suc [0..<m]"
    by (simp add: upt_conv_Cons map_Suc_upt del: upt_Suc)
  moreover have "nat (int (Suc m) - 0) = Suc m" "nat (int m - 0) = m"
    by simp_all
  ultimately show ?thesis
    unfolding py_range_down_def by (simp del: upt_Suc of_nat_Suc)
qed

lemma shift_sets_nth:
  "m < length cs \<Longrightarrow>
   \<exists>cs'. shift_sets (py_range_down (int m) 0) cs = Inr cs' \<and> length cs' = length cs \<and>
         (\<forall>i<length cs. cs' ! i = (if 1 \<le> i \<and> i \<le> m then cs ! (i - 1) else cs ! i))"
proof (induction m arbitrary: cs)
  case 0
  then show ?case by (simp add: py_range_down_def)
next
  case (Suc m)
  let ?c1 = "cs[Suc m := cs ! m]"
  have m: "m < length ?c1" using Suc.prems by simp
  from Suc.IH[OF m] obtain cs' where
    s: "shift_sets (py_range_down (int m) 0) ?c1 = Inr cs'" and
    l: "length cs' = length cs" and
    n: "\<forall>i<length cs. cs' ! i = (if 1 \<le> i \<and> i \<le> m then ?c1 ! (i - 1) else ?c1 ! i)"
    by auto
  have g: "py_get cs (int (Suc m) - 1) = Inr (cs ! m)"
    using Suc.prems by (simp add: py_get_def py_index_def)
  have u: "py_set cs (int (Suc m)) (cs ! m) = Inr ?c1"
    using Suc.prems by (simp add: py_set_def py_index_def del: of_nat_Suc)
  have "shift_sets (py_range_down (int (Suc m)) 0) cs = Inr cs'"
    unfolding py_range_down_Suc using g u s by simp
  moreover have "\<forall>i<length cs. cs' ! i = (if 1 \<le> i \<and> i \<le> Suc m then cs ! (i - 1) else cs ! i)"
  proof (intro allI impI)
    fix i assume i: "i < length cs"
    show "cs' ! i = (if 1 \<le> i \<and> i \<le> Suc m then cs ! (i - 1) else cs ! i)"
    proof (cases "i = Suc m")
      case True
      then show ?thesis using n i by simp
    next
      case False
      have a: "?c1 ! i = cs ! i" using False by simp
      have b: "?c1 ! (i - 1) = cs ! (i - 1)" if "i \<le> m"
      proof -
        have "Suc m \<noteq> i - 1" using that by arith
        then show ?thesis by (rule nth_list_update_neq)
      qed
      have "cs' ! i = (if 1 \<le> i \<and> i \<le> m then ?c1 ! (i - 1) else ?c1 ! i)"
        using n i by blast
      then show ?thesis using False a b by (cases "i \<le> m") simp_all
    qed
  qed
  ultimately show ?case using l by blast
qed

lemma gen_cycle_spec:
  assumes len: "length cs = nat w" and w: "0 < w"
    and taps: "\<forall>t\<in>set ts. 0 \<le> t \<and> t < w"
  shows "gen_cycle w ts cs =
         Inr (shift_snapshot (feedback_term (map nat ts) cs) cs, feedback_term (map nat ts) cs)"
proof -
  let ?fb = "feedback_term (map nat ts) cs"
  have x: "xor_taps cs ts {} = Inr ?fb"
    using xor_taps_foldl[of ts cs "{}"] taps len w by (simp add: feedback_term_def)
  have m: "nat (w - 1) < length cs" using len w by simp
  from shift_sets_nth[OF m] obtain cs' where
    s: "shift_sets (py_range_down (w - 1) 0) cs = Inr cs'" and
    l: "length cs' = length cs" and
    n: "\<forall>i<length cs. cs' ! i = (if 1 \<le> i \<and> i \<le> nat (w - 1) then cs ! (i - 1) else cs ! i)"
    using w by auto
  have p: "py_set cs' 0 ?fb = Inr (cs'[0 := ?fb])"
    using l len w by (simp add: py_set_def py_index_def)
  have e: "cs'[0 := ?fb] = shift_snapshot ?fb cs"
  proof (rule nth_equalityI)
    show "length (cs'[0 := ?fb]) = length (shift_snapshot ?fb cs)"
      using l by (simp add: shift_snapshot_def)
  next
    fix i assume "i < length (cs'[0 := ?fb])"
    then have i: "i < length cs" using l by simp
    then have "i \<le> nat (w - 1)" using len by simp
    then show "cs'[0 := ?fb] ! i = shift_snapshot ?fb cs ! i"
      using i n l by (cases "i = 0") (simp_all add: shift_snapshot_def)
  qed
  show ?thesis
    unfolding gen_cycle_def using x s p e by simp
qed

lemma length_shift_snapshot: "length (shift_snapshot fb cs) = length cs"
  by (simp add: shift_snapshot_def)

lemma gen_loop_spec:
  "length cs = nat w \<Longrightarrow> 0 < w \<Longrightarrow> \<forall>t\<in>set ts. 0 \<le> t \<and> t < w \<Longrightarrow>
   gen_loop n w ts cs acc = Inr (acc @ expand n (map nat ts) cs)"
proof (induction n arbitrary: cs acc)
  case 0
  then show ?case by simp
next
  case (Suc n)
  then show ?case
    by (simp add: gen_cycle_spec length_shift_snapshot)
qed

lemma gen_random_spec:
  "0 < w \<Longrightarrow> \<forall>t\<in>set ts. 0 \<le> t \<and> t < w \<Longrightarrow>
   gen_random w ts N = Inr (output_schedule (nat w) (map nat ts) (nat N))"
  using gen_loop_spec[of "map (\<lambda>ii. {ii}) (py_range w)" w ts "nat N" "[]"]
  by (simp add: gen_random_def output_schedule_def initial_snapshot_def py_range_def comp_def)

lemma length_expand: "length (expand n ts cs) = n"
  by (induction n arbitrary: cs) simp_all

section \<open>What the parser accepts and returns\<close>

lemma startswith_0b: "startswith s ''0b'' \<Longrightarrow> \<not> startswith s ''0x''"
  by (auto simp: startswith_def)

lemma py_bin_not_0x: "\<not> startswith (py_bin v) ''0x''"
  by (simp add: startswith_def py_bin_def)

lemma digit_groups_zero:
  "digit_groups d s = Some vs \<Longrightarrow> \<forall>c v. d c = Some v \<longrightarrow> c \<noteq> CHR ''1'' \<longrightarrow> v = 0 \<Longrightarrow>
   CHR ''1'' \<notin> set s \<Longrightarrow> set vs \<subseteq> {0}"
proof (induction d s arbitrary: vs rule: digit_groups.induct)
  case (1 d)
  then show ?case by simp
next
  case (2 d c cs)
  show ?case
  proof (cases "c = CHR ''_''")
    case True
    with "2.prems" obtain c' cs' where cs: "cs = c' # cs'"
      by (cases cs) auto
    with "2.prems" True obtain v vs' where
      v: "d c' = Some v" and r: "digit_groups d cs' = Some vs'" and e: "vs = v # vs'"
      by (auto split: option.splits)
    have "v = 0" using v "2.prems"(2,3) cs by auto
    moreover have "set vs' \<subseteq> {0}"
      using "2.IH"(1)[OF True cs v r] "2.prems"(2,3) cs by simp
    ultimately show ?thesis using e by simp
  next
    case False
    with "2.prems" obtain v vs' where
      v: "d c = Some v" and r: "digit_groups d cs = Some vs'" and e: "vs = v # vs'"
      by (auto split: option.splits)
    have "v = 0" using v "2.prems"(2,3) by auto
    moreover have "set vs' \<subseteq> {0}"
      using "2.IH"(2)[OF False v r] "2.prems"(2,3) by simp
    ultimately show ?thesis using e by simp
  qed
qed

lemma bin_digit_not_one: "\<forall>c v. bin_digit c = Some v \<longrightarrow> c \<noteq> CHR ''1'' \<longrightarrow> v = 0"
  by (auto simp: bin_digit_def split: if_splits)

lemma foldl_zero: "set vs \<subseteq> {0} \<Longrightarrow> foldl (\<lambda>a d. b * a + d) (0::nat) vs = 0"
  by (induction vs) auto

lemma int_literal_nonzero_has_one:
  "int_literal 2 bin_digit s = Some v \<Longrightarrow> v \<noteq> 0 \<Longrightarrow> CHR ''1'' \<in> set s"
proof (rule ccontr)
  assume a: "int_literal 2 bin_digit s = Some v" and nz: "v \<noteq> 0" and n: "CHR ''1'' \<notin> set s"
  from a obtain vs where d: "digit_groups bin_digit s = Some vs"
    and v: "v = int (foldl (\<lambda>a d. 2 * a + d) 0 vs)"
    by (auto simp: int_literal_def split: option.splits list.splits)
  from digit_groups_zero[OF d bin_digit_not_one n] have "foldl (\<lambda>a d. 2 * a + d) (0::nat) vs = 0"
    by (rule foldl_zero)
  with v nz show False by simp
qed

text \<open>What a successful parse returns: the binary string it read.\<close>

lemma parse_polynomial_Inr:
  assumes "parse_polynomial ev lit = Inr (w, taps)"
  obtains gp where
    "w = int (length (drop 2 gp))" "taps = one_indices_of (drop 2 gp)"
    "ev gp \<noteq> Raises" "ev gp \<noteq> IntVal 0"
    "startswith lit ''0x'' \<longrightarrow> (\<exists>v. ev lit = IntVal v \<and> gp = py_bin v)"
    "\<not> startswith lit ''0x'' \<longrightarrow> gp = lit \<and> startswith lit ''0b''"
proof -
  from assms have pre: "startswith lit ''0b'' \<or> startswith lit ''0x''"
    by (auto simp: parse_polynomial_def split: if_splits)
  from assms pre obtain gp where
    gp: "(if startswith lit ''0x'' then bin_of_eval (ev lit) else Inr lit) = Inr gp"
    and r: "(case ev gp of
               Raises \<Rightarrow> Inl EvalError
             | IntVal v \<Rightarrow> if v = 0 then Inl ZeroPolynomial
                           else Inr (int (length (drop 2 gp)), one_indices_of (drop 2 gp))
             | OtherVal nonzero \<Rightarrow> if \<not> nonzero then Inl ZeroPolynomial
                           else Inr (int (length (drop 2 gp)), one_indices_of (drop 2 gp))) =
            Inr (w, taps)"
    by (auto simp: parse_polynomial_def split: sum.splits)
  from r have a: "w = int (length (drop 2 gp))" "taps = one_indices_of (drop 2 gp)"
    and b: "ev gp \<noteq> Raises" "ev gp \<noteq> IntVal 0"
    by (auto split: eval_result.splits if_splits)
  have c: "startswith lit ''0x'' \<longrightarrow> (\<exists>v. ev lit = IntVal v \<and> gp = py_bin v)"
    using gp by (auto simp: bin_of_eval_def split: eval_result.splits)
  have d: "\<not> startswith lit ''0x'' \<longrightarrow> gp = lit \<and> startswith lit ''0b''"
    using gp pre by auto
  show ?thesis using that[OF a b c d] .
qed

lemma py_range_int: "py_range (int n) = map int [0..<n]"
  by (simp add: py_range_def)

lemma one_indices_of_set:
  "set (one_indices_of bs) = {int (length bs) - 1 - int i | i. i < length bs \<and> bs ! i = CHR ''1''}"
  unfolding one_indices_of_def py_range_int by auto

lemma one_indices_of_nonempty: "CHR ''1'' \<in> set bs \<Longrightarrow> one_indices_of bs \<noteq> []"
proof -
  assume "CHR ''1'' \<in> set bs"
  then obtain i where "i < length bs" "bs ! i = CHR ''1''"
    by (auto simp: in_set_conv_nth)
  then have "int (length bs) - 1 - int i \<in> set (one_indices_of bs)"
    unfolding one_indices_of_set by blast
  then show ?thesis by auto
qed

lemma one_indices_of_range: "t \<in> set (one_indices_of bs) \<Longrightarrow> 0 \<le> t \<and> t < int (length bs)"
  unfolding one_indices_of_set by auto

lemma sorted_py_range: "sorted_wrt (<) (py_range n)"
  by (simp add: py_range_def sorted_wrt_map)

lemma one_indices_of_sorted: "sorted_wrt (>) (one_indices_of bs)"
proof -
  have "sorted_wrt (<) (filter (\<lambda>ii. bs ! nat ii = CHR ''1'') (py_range (int (length bs))))"
    using sorted_py_range by (rule sorted_wrt_filter)
  then show ?thesis
    unfolding one_indices_of_def sorted_wrt_map
    by (rule sorted_wrt_mono_rel[rotated]) simp
qed

lemma one_indices_of_hd:
  assumes "bs \<noteq> []" "hd bs = CHR ''1''"
  shows "hd (one_indices_of bs) = int (length bs) - 1"
proof -
  obtain c cs where bs: "bs = c # cs" using assms(1) by (cases bs) auto
  have "[0..<length bs] = 0 # [1..<length bs]"
    using bs by (simp add: upt_conv_Cons del: upt_Suc)
  then show ?thesis
    using assms(2) bs unfolding one_indices_of_def py_range_int by simp
qed

lemma startswith_append: "startswith s p \<Longrightarrow> \<exists>r. s = p @ r"
proof -
  assume "startswith s p"
  then have "p @ drop (length p) s = s"
    using append_take_drop_id[of "length p" s] by (simp add: startswith_def)
  then show ?thesis by metis
qed

lemma to_digits_nonempty: "to_digits b n \<noteq> []"
  by (subst to_digits.simps) simp

lemma drop_py_bin_nonempty: "drop 2 (py_bin v) \<noteq> []"
  using to_digits_nonempty[of 2] by (simp add: py_bin_def)

lemma parse_polynomial_valid:
  assumes "python_eval ev" and "parse_polynomial ev lit = Inr (w, taps)"
  shows "sorted_wrt (>) taps" "\<forall>t\<in>set taps. 0 \<le> t \<and> t < w" "0 < w"
proof -
  from assms(2) obtain gp where
    w: "w = int (length (drop 2 gp))" and t: "taps = one_indices_of (drop 2 gp)"
    and nr: "ev gp \<noteq> Raises" and nz: "ev gp \<noteq> IntVal 0"
    and hex: "startswith lit ''0x'' \<longrightarrow> (\<exists>v. ev lit = IntVal v \<and> gp = py_bin v)"
    and bin: "\<not> startswith lit ''0x'' \<longrightarrow> gp = lit \<and> startswith lit ''0b''"
    by (rule parse_polynomial_Inr)
  show "sorted_wrt (>) taps" using t by (simp add: one_indices_of_sorted)
  show "\<forall>t\<in>set taps. 0 \<le> t \<and> t < w" using t w one_indices_of_range by blast
  have "drop 2 gp \<noteq> []"
  proof (cases "startswith lit ''0x''")
    case True
    then show ?thesis using hex drop_py_bin_nonempty by auto
  next
    case False
    then obtain r where r: "gp = ''0b'' @ r" using bin startswith_append by blast
    have "r \<noteq> []"
    proof
      assume "r = []"
      then have "ev gp = Raises" using r assms(1) by (simp add: python_eval_def)
      with nr show False by simp
    qed
    then show ?thesis using r by simp
  qed
  then show "0 < w" using w by simp
qed

section \<open>Terms read on a concrete seed\<close>

lemma finite_sym_diff: "finite A \<Longrightarrow> finite B \<Longrightarrow> finite (sym_diff A B)"
  by (simp add: sym_diff_def)

lemma card_sym_diff_parity:
  assumes "finite X" "finite Y"
  shows "odd (card ((X - Y) \<union> (Y - X))) = (odd (card X) \<noteq> odd (card Y))"
proof -
  have d: "card ((X - Y) \<union> (Y - X)) = card (X - Y) + card (Y - X)"
    using assms by (intro card_Un_disjoint) auto
  have x: "card X = card (X - Y) + card (X \<inter> Y)"
    using assms card_Diff_subset_Int[of X Y] card_mono[of X "X \<inter> Y"] by (simp add: Int_commute)
  have y: "card Y = card (Y - X) + card (X \<inter> Y)"
    using assms card_Diff_subset_Int[of Y X] card_mono[of Y "Y \<inter> X"] by (simp add: Int_commute)
  show ?thesis unfolding d x y by auto
qed

lemma xor_seed_bits_sym_diff:
  assumes "finite A" "finite B"
  shows "xor_seed_bits seed (sym_diff A B) = (xor_seed_bits seed A \<noteq> xor_seed_bits seed B)"
proof -
  let ?P = "\<lambda>i. seed ! nat i"
  have "Set.filter ?P (sym_diff A B) =
        (Set.filter ?P A - Set.filter ?P B) \<union> (Set.filter ?P B - Set.filter ?P A)"
    by (auto simp: sym_diff_def)
  then show ?thesis
    unfolding xor_seed_bits_def using assms by (simp add: card_sym_diff_parity)
qed

lemma xor_seed_bits_empty: "\<not> xor_seed_bits seed {}"
  by (simp add: xor_seed_bits_def)

lemma xor_seed_bits_single: "xor_seed_bits seed {i} = seed ! nat i"
proof (cases "seed ! nat i")
  case True
  then have e: "Set.filter (\<lambda>i. seed ! nat i) {i} = {i}" by auto
  show ?thesis unfolding xor_seed_bits_def e using True by simp
next
  case False
  then have e: "Set.filter (\<lambda>i. seed ! nat i) {i} = {}" by auto
  show ?thesis unfolding xor_seed_bits_def e using False by simp
qed

lemma foldl_sym_diff_eval:
  "finite acc \<Longrightarrow> \<forall>T\<in>set Ts. finite T \<Longrightarrow>
   finite (foldl sym_diff acc Ts) \<and>
   xor_seed_bits seed (foldl sym_diff acc Ts) =
     foldl (\<lambda>a b. a \<noteq> b) (xor_seed_bits seed acc) (map (xor_seed_bits seed) Ts)"
  by (induction Ts arbitrary: acc) (simp_all add: finite_sym_diff xor_seed_bits_sym_diff)

text \<open>A snapshot agrees with a register when every cell, read on the seed, is the
  register's bit.\<close>

lemma feedback_agrees:
  assumes len: "length cs = length reg"
    and cells: "\<forall>i<length cs. finite (cs ! i) \<and> xor_seed_bits seed (cs ! i) = reg ! i"
    and taps: "\<forall>t\<in>set ts. t < length cs"
  shows "finite (feedback_term ts cs)"
    and "xor_seed_bits seed (feedback_term ts cs) = feedback_bit ts reg"
proof -
  have f: "\<forall>T\<in>set (map (\<lambda>t. cs ! t) ts). finite T"
    using cells taps by auto
  have m: "map (xor_seed_bits seed) (map (\<lambda>t. cs ! t) ts) = map (\<lambda>t. reg ! t) ts"
    using cells taps by simp
  from foldl_sym_diff_eval[OF finite.emptyI f, of seed]
  show "finite (feedback_term ts cs)"
    and "xor_seed_bits seed (feedback_term ts cs) = feedback_bit ts reg"
    unfolding feedback_term_def feedback_bit_def m by (simp_all add: xor_seed_bits_empty)
qed

lemma shift_agrees:
  assumes len: "length cs = length reg"
    and cells: "\<forall>i<length cs. finite (cs ! i) \<and> xor_seed_bits seed (cs ! i) = reg ! i"
    and taps: "\<forall>t\<in>set ts. t < length cs"
  shows "\<forall>i<length cs.
           finite (shift_snapshot (feedback_term ts cs) cs ! i) \<and>
           xor_seed_bits seed (shift_snapshot (feedback_term ts cs) cs ! i) = lfsr_step ts reg ! i"
  using feedback_agrees[OF assms] cells len
  by (simp add: shift_snapshot_def lfsr_step_def)

lemma length_lfsr_step: "length (lfsr_step ts reg) = length reg"
  by (simp add: lfsr_step_def)

lemma length_lfsr_run: "length (lfsr_run k ts reg) = length reg"
  by (induction k arbitrary: reg) (simp_all add: length_lfsr_step)

lemma length_snapshot_at: "length (snapshot_at k ts cs) = length cs"
  by (induction k arbitrary: cs) (simp_all add: length_shift_snapshot)

lemma snapshot_agrees:
  "length cs = length reg \<Longrightarrow>
   \<forall>i<length cs. finite (cs ! i) \<and> xor_seed_bits seed (cs ! i) = reg ! i \<Longrightarrow>
   \<forall>t\<in>set ts. t < length cs \<Longrightarrow>
   \<forall>i<length cs. finite (snapshot_at k ts cs ! i) \<and>
                 xor_seed_bits seed (snapshot_at k ts cs ! i) = lfsr_run k ts reg ! i"
proof (induction k arbitrary: cs reg)
  case 0
  then show ?case by simp
next
  case (Suc k)
  let ?cs = "shift_snapshot (feedback_term ts cs) cs"
  have "\<forall>i<length ?cs. finite (snapshot_at k ts ?cs ! i) \<and>
          xor_seed_bits seed (snapshot_at k ts ?cs ! i) = lfsr_run k ts (lfsr_step ts reg) ! i"
  proof (rule Suc.IH)
    show "length ?cs = length (lfsr_step ts reg)"
      using Suc.prems(1) by (simp add: length_shift_snapshot length_lfsr_step)
    show "\<forall>i<length ?cs. finite (?cs ! i) \<and> xor_seed_bits seed (?cs ! i) = lfsr_step ts reg ! i"
      using shift_agrees[OF Suc.prems] by (simp add: length_shift_snapshot)
    show "\<forall>t\<in>set ts. t < length ?cs"
      using Suc.prems(3) by (simp add: length_shift_snapshot)
  qed
  then show ?case by (simp add: length_shift_snapshot)
qed

lemma expand_nth:
  "k < n \<Longrightarrow> expand n ts cs ! k = feedback_term ts (snapshot_at k ts cs)"
proof (induction n arbitrary: k cs)
  case 0
  then show ?case by simp
next
  case (Suc n)
  then show ?case by (cases k) simp_all
qed

lemma initial_agrees:
  "length seed = w \<Longrightarrow>
   \<forall>i<length (initial_snapshot w).
     finite (initial_snapshot w ! i) \<and> xor_seed_bits seed (initial_snapshot w ! i) = seed ! i"
  by (simp add: initial_snapshot_def xor_seed_bits_single)

lemma schedule_agrees:
  assumes "length seed = w" "\<forall>t\<in>set ts. t < w" "k < n"
  shows "finite (output_schedule w ts n ! k)"
    and "xor_seed_bits seed (output_schedule w ts n ! k) = sim_feedback ts seed k"
proof -
  let ?cs = "snapshot_at k ts (initial_snapshot w)"
  have l0: "length (initial_snapshot w) = length seed"
    using assms(1) by (simp add: initial_snapshot_def)
  have t0: "\<forall>t\<in>set ts. t < length (initial_snapshot w)"
    using assms(2) by (simp add: initial_snapshot_def)
  have a: "\<forall>i<length (initial_snapshot w). finite (?cs ! i) \<and>
             xor_seed_bits seed (?cs ! i) = lfsr_run k ts seed ! i"
    using snapshot_agrees[OF l0 initial_agrees[OF assms(1)] t0] .
  have l: "length ?cs = length (lfsr_run k ts seed)"
    using l0 by (simp add: length_snapshot_at length_lfsr_run)
  have a': "\<forall>i<length ?cs. finite (?cs ! i) \<and> xor_seed_bits seed (?cs ! i) = lfsr_run k ts seed ! i"
    using a by (simp add: length_snapshot_at)
  have t: "\<forall>t\<in>set ts. t < length ?cs"
    using t0 by (simp add: length_snapshot_at)
  show "finite (output_schedule w ts n ! k)"
    and "xor_seed_bits seed (output_schedule w ts n ! k) = sim_feedback ts seed k"
    unfolding output_schedule_def sim_feedback_def expand_nth[OF assms(3)]
    using feedback_agrees[OF l a' t] by simp_all
qed

section \<open>Every cycle's feedback bit is set for some seed\<close>

lemma foldl_xor_acc:
  "foldl (\<lambda>a b. a \<noteq> b) a xs = (a \<noteq> foldl (\<lambda>a b. a \<noteq> b) False xs)"
proof (induction xs arbitrary: a)
  case Nil
  then show ?case by simp
next
  case (Cons x xs)
  have "foldl (\<lambda>a b. a \<noteq> b) (a \<noteq> x) xs = ((a \<noteq> x) \<noteq> foldl (\<lambda>a b. a \<noteq> b) False xs)"
    by (rule Cons.IH)
  moreover have "foldl (\<lambda>a b. a \<noteq> b) (False \<noteq> x) xs = ((False \<noteq> x) \<noteq> foldl (\<lambda>a b. a \<noteq> b) False xs)"
    by (rule Cons.IH)
  ultimately show ?case by auto
qed

lemma lfsr_run_Suc_step: "lfsr_run (Suc k) ts reg = lfsr_step ts (lfsr_run k ts reg)"
  by (induction k arbitrary: reg) simp_all

lemma feedback_bit_top:
  "feedback_bit (m # rest) reg =
   (reg ! m \<noteq> foldl (\<lambda>a b. a \<noteq> b) False (map (\<lambda>t. reg ! t) rest))"
  unfolding feedback_bit_def using foldl_xor_acc[of "False \<noteq> reg ! m"] by simp

lemma reach_low_cells:
  assumes rest: "\<forall>t\<in>set rest. t < m" and m: "m < w"
  shows "\<exists>seed. length seed = w \<and> (\<forall>i\<le>m. lfsr_run k (m # rest) seed ! i = b i)"
proof (induction k arbitrary: b)
  case 0
  have "length (map b [0..<w]) = w \<and> (\<forall>i\<le>m. lfsr_run 0 (m # rest) (map b [0..<w]) ! i = b i)"
    using m by simp
  then show ?case by blast
next
  case (Suc k)
  define X where "X = foldl (\<lambda>a b. a \<noteq> b) False (map (\<lambda>t. b (Suc t)) rest)"
  define b' where "b' = (\<lambda>j. if j = m then (b 0 \<noteq> X) else b (Suc j))"
  from Suc.IH[of b'] obtain seed where
    len: "length seed = w" and low: "\<forall>i\<le>m. lfsr_run k (m # rest) seed ! i = b' i"
    by blast
  let ?r = "lfsr_run k (m # rest) seed"
  have lr: "length ?r = w" using len by (simp add: length_lfsr_run)
  have me: "map (\<lambda>t. ?r ! t) rest = map (\<lambda>t. b (Suc t)) rest"
  proof (rule map_cong[OF refl])
    fix t assume "t \<in> set rest"
    then have "t < m" using rest by simp
    then show "?r ! t = b (Suc t)" using low by (simp add: b'_def)
  qed
  have "feedback_bit (m # rest) ?r = (?r ! m \<noteq> X)"
    unfolding feedback_bit_top X_def me by (rule refl)
  moreover have "?r ! m = (b 0 \<noteq> X)"
    using low by (simp add: b'_def)
  ultimately have fb: "feedback_bit (m # rest) ?r = b 0"
    by auto
  have "\<forall>i\<le>m. lfsr_step (m # rest) ?r ! i = b i"
  proof (intro allI impI)
    fix i assume i: "i \<le> m"
    then have iw: "i < length ?r" using m lr by simp
    show "lfsr_step (m # rest) ?r ! i = b i"
    proof (cases "i = 0")
      case True
      then show ?thesis using iw fb by (simp add: lfsr_step_def)
    next
      case False
      then have "i - 1 \<le> m" "i - 1 \<noteq> m" "Suc (i - 1) = i" using i by simp_all
      then have "?r ! (i - 1) = b i" using low by (simp add: b'_def)
      then show ?thesis using iw False by (simp add: lfsr_step_def)
    qed
  qed
  then have "\<forall>i\<le>m. lfsr_run (Suc k) (m # rest) seed ! i = b i"
    unfolding lfsr_run_Suc_step .
  with len show ?case by blast
qed

lemma sim_feedback_set:
  assumes rest: "\<forall>t\<in>set rest. t < m" and m: "m < w"
  shows "\<exists>seed. length seed = w \<and> sim_feedback (m # rest) seed k"
proof -
  from reach_low_cells[OF assms, of "Suc k" "\<lambda>_. True"] obtain seed where
    len: "length seed = w" and z: "lfsr_run (Suc k) (m # rest) seed ! 0"
    by auto
  have "0 < length (lfsr_run k (m # rest) seed)"
    using len m by (simp add: length_lfsr_run)
  then have "sim_feedback (m # rest) seed k"
    using z unfolding lfsr_run_Suc_step sim_feedback_def by (simp add: lfsr_step_def)
  with len show ?thesis by blast
qed

text \<open>The taps a parse returns, as natural numbers: the first is the highest.\<close>

lemma taps_top:
  assumes "taps \<noteq> []" "sorted_wrt (>) taps" "\<forall>t\<in>set taps. 0 \<le> t \<and> t < (w::int)"
  obtains m rest where "map nat taps = m # rest" "\<forall>t\<in>set rest. t < m" "m < nat w"
proof -
  from assms(1) obtain t ts where e: "taps = t # ts" by (cases taps) auto
  have "\<forall>x\<in>set (map nat ts). x < nat t"
  proof
    fix x assume "x \<in> set (map nat ts)"
    then obtain y where y: "y \<in> set ts" and x: "x = nat y" by auto
    have "y < t" using assms(2) e y by simp
    moreover have "0 \<le> y" using assms(3) e y by simp
    ultimately show "x < nat t" using x by simp
  qed
  moreover have "nat t < nat w" using assms(3) e by auto
  ultimately show ?thesis using that[of "nat t" "map nat ts"] e by simp
qed

lemma taps_nat_range:
  "\<forall>t\<in>set taps. 0 \<le> t \<and> t < (w::int) \<Longrightarrow> \<forall>t\<in>set (map nat taps). t < nat w"
  by auto

lemma schedule_nonempty:
  assumes "taps \<noteq> []" "sorted_wrt (>) taps" "\<forall>t\<in>set taps. 0 \<le> t \<and> t < (w::int)" "k < n"
  shows "output_schedule (nat w) (map nat taps) n ! k \<noteq> {}"
proof -
  from assms(1-3) obtain m rest where
    e: "map nat taps = m # rest" and r: "\<forall>t\<in>set rest. t < m" and m: "m < nat w"
    by (rule taps_top)
  from sim_feedback_set[OF r m, of k] obtain seed where
    len: "length seed = nat w" and s: "sim_feedback (map nat taps) seed k"
    unfolding e by blast
  have "xor_seed_bits seed (output_schedule (nat w) (map nat taps) n ! k)"
    using schedule_agrees(2)[OF len taps_nat_range[OF assms(3)] assms(4)] s by simp
  then show ?thesis using xor_seed_bits_empty by metis
qed

section \<open>Terms stay inside the seed indices\<close>

lemma foldl_sym_diff_subset:
  "acc \<subseteq> U \<Longrightarrow> \<forall>T\<in>set Ts. T \<subseteq> U \<Longrightarrow> foldl sym_diff acc Ts \<subseteq> U"
proof (induction Ts arbitrary: acc)
  case Nil
  then show ?case by simp
next
  case (Cons T Ts)
  have "sym_diff acc T \<subseteq> U" using Cons.prems by (auto simp: sym_diff_def)
  then show ?case using Cons by simp
qed

lemma feedback_subset:
  "\<forall>i<length cs. cs ! i \<subseteq> U \<Longrightarrow> \<forall>t\<in>set ts. t < length cs \<Longrightarrow> feedback_term ts cs \<subseteq> U"
  unfolding feedback_term_def by (rule foldl_sym_diff_subset) auto

lemma snapshot_subset:
  "\<forall>i<length cs. cs ! i \<subseteq> U \<Longrightarrow> \<forall>t\<in>set ts. t < length cs \<Longrightarrow>
   \<forall>i<length cs. snapshot_at k ts cs ! i \<subseteq> U"
proof (induction k arbitrary: cs)
  case 0
  then show ?case by simp
next
  case (Suc k)
  let ?cs = "shift_snapshot (feedback_term ts cs) cs"
  have "\<forall>i<length ?cs. snapshot_at k ts ?cs ! i \<subseteq> U"
  proof (rule Suc.IH)
    show "\<forall>i<length ?cs. ?cs ! i \<subseteq> U"
      using feedback_subset[OF Suc.prems] Suc.prems(1) by (simp add: shift_snapshot_def)
    show "\<forall>t\<in>set ts. t < length ?cs"
      using Suc.prems(2) by (simp add: length_shift_snapshot)
  qed
  then show ?case by (simp add: length_shift_snapshot)
qed

lemma schedule_subset:
  assumes "\<forall>t\<in>set ts. t < w" "k < n"
  shows "output_schedule w ts n ! k \<subseteq> {0..<int w}"
proof -
  have i: "\<forall>i<length (initial_snapshot w). initial_snapshot w ! i \<subseteq> {0..<int w}"
    by (simp add: initial_snapshot_def)
  have t: "\<forall>t\<in>set ts. t < length (initial_snapshot w)"
    using assms(1) by (simp add: initial_snapshot_def)
  have "\<forall>i<length (snapshot_at k ts (initial_snapshot w)).
          snapshot_at k ts (initial_snapshot w) ! i \<subseteq> {0..<int w}"
    using snapshot_subset[OF i t] by (simp add: length_snapshot_at)
  moreover have "\<forall>t\<in>set ts. t < length (snapshot_at k ts (initial_snapshot w))"
    using t by (simp add: length_snapshot_at)
  ultimately show ?thesis
    unfolding output_schedule_def expand_nth[OF assms(2)] by (rule feedback_subset)
qed

section \<open>The first cycle\<close>

lemma foldl_sym_diff_singletons:
  "distinct ts \<Longrightarrow> A \<inter> set ts = {} \<Longrightarrow> foldl sym_diff A (map (\<lambda>t. {t}) ts) = A \<union> set ts"
proof (induction ts arbitrary: A)
  case Nil
  then show ?case by simp
next
  case (Cons t ts)
  have s: "sym_diff A {t} = insert t A" using Cons.prems by (auto simp: sym_diff_def)
  have "foldl sym_diff (insert t A) (map (\<lambda>t. {t}) ts) = insert t A \<union> set ts"
    using Cons.prems by (intro Cons.IH) auto
  then show ?case using s by simp
qed

lemma first_term:
  assumes "sorted_wrt (>) taps" "\<forall>t\<in>set taps. 0 \<le> t \<and> t < (w::int)" "0 < n"
  shows "output_schedule (nat w) (map nat taps) n ! 0 = set taps"
proof -
  have d: "distinct taps"
    using assms(1) by (simp add: distinct_conv_nth sorted_wrt_iff_nth_less) (metis less_irrefl linorder_neqE_nat)
  have me: "map (\<lambda>t. initial_snapshot (nat w) ! t) (map nat taps) = map (\<lambda>t. {t}) taps"
    unfolding map_map
  proof (rule map_cong[OF refl])
    fix t assume "t \<in> set taps"
    then have "0 \<le> t" "nat t < nat w" using assms(2) by auto
    then show "((\<lambda>t. initial_snapshot (nat w) ! t) \<circ> nat) t = {t}"
      by (simp add: initial_snapshot_def)
  qed
  have "foldl sym_diff {} (map (\<lambda>t. {t}) taps) = set taps"
    using foldl_sym_diff_singletons[OF d, of "{}"] by simp
  then have "feedback_term (map nat taps) (initial_snapshot (nat w)) = set taps"
    unfolding feedback_term_def me .
  then show ?thesis
    unfolding output_schedule_def expand_nth[OF assms(3)] by simp
qed

section \<open>Binary digits and the concrete evaluator\<close>

lemma digit_groups_snoc:
  "digit_groups d s = Some vs \<Longrightarrow> c \<noteq> CHR ''_'' \<Longrightarrow> d c = Some v \<Longrightarrow>
   digit_groups d (s @ [c]) = Some (vs @ [v])"
proof (induction d s arbitrary: vs rule: digit_groups.induct)
  case (1 d)
  then show ?case by simp
next
  case (2 d c0 cs)
  show ?case
  proof (cases "c0 = CHR ''_''")
    case True
    with "2.prems" obtain c' cs' where cs: "cs = c' # cs'"
      by (cases cs) auto
    with "2.prems" True obtain v' vs' where
      v: "d c' = Some v'" and r: "digit_groups d cs' = Some vs'" and e: "vs = v' # vs'"
      by (auto split: option.splits)
    have "digit_groups d (cs' @ [c]) = Some (vs' @ [v])"
      using "2.IH"(1)[OF True cs v r "2.prems"(2,3)] .
    then show ?thesis using True cs v e by simp
  next
    case False
    with "2.prems" obtain v' vs' where
      v: "d c0 = Some v'" and r: "digit_groups d cs = Some vs'" and e: "vs = v' # vs'"
      by (auto split: option.splits)
    have "digit_groups d (cs @ [c]) = Some (vs' @ [v])"
      using "2.IH"(2)[OF False v r "2.prems"(2,3)] .
    then show ?thesis using False v e by simp
  qed
qed

lemma bin_digit_char: "d < 2 \<Longrightarrow> bin_digit (digit_char d) = Some d \<and> digit_char d \<noteq> CHR ''_''"
proof -
  assume "d < 2"
  then have "d = 0 \<or> d = 1" by arith
  then show ?thesis by (auto simp: bin_digit_def digit_char_def)
qed

lemma to_digits_bin_groups:
  "\<exists>vs. digit_groups bin_digit (to_digits 2 m) = Some vs \<and> vs \<noteq> [] \<and>
        foldl (\<lambda>a d. 2 * a + d) 0 vs = m"
proof (induction m rule: less_induct)
  case (less m)
  show ?case
  proof (cases "m < 2")
    case True
    then have "to_digits 2 m = [digit_char m]" by (subst to_digits.simps) simp
    then show ?thesis using bin_digit_char[OF True] by simp
  next
    case False
    then have t: "to_digits 2 m = to_digits 2 (m div 2) @ [digit_char (m mod 2)]"
      by (subst to_digits.simps) simp
    have "m div 2 < m" using False by simp
    from less.IH[OF this] obtain vs where
      g: "digit_groups bin_digit (to_digits 2 (m div 2)) = Some vs" and
      f: "foldl (\<lambda>a d. 2 * a + d) 0 vs = m div 2"
      by blast
    have b: "bin_digit (digit_char (m mod 2)) = Some (m mod 2)" "digit_char (m mod 2) \<noteq> CHR ''_''"
      using bin_digit_char[of "m mod 2"] by simp_all
    have "digit_groups bin_digit (to_digits 2 m) = Some (vs @ [m mod 2])"
      unfolding t using g b(2) b(1) by (rule digit_groups_snoc)
    moreover have "foldl (\<lambda>a d. 2 * a + d) 0 (vs @ [m mod 2]) = m"
      using f by simp
    ultimately show ?thesis by blast
  qed
qed

lemma literal_value_bin: "literal_value (''0b'' @ to_digits 2 n) = Some (int n)"
proof -
  from to_digits_bin_groups[of n] obtain vs where
    "digit_groups bin_digit (to_digits 2 n) = Some vs" "vs \<noteq> []"
    "foldl (\<lambda>a d. 2 * a + d) 0 vs = n"
    by blast
  then have "int_literal 2 bin_digit (to_digits 2 n) = Some (int n)"
    by (cases vs) (simp_all add: int_literal_def)
  then show ?thesis
    by (simp add: literal_value_def startswith_def)
qed

lemma literal_value_nonneg: "literal_value s = Some v \<Longrightarrow> 0 \<le> v"
  by (auto simp: literal_value_def int_literal_def split: if_splits option.splits list.splits)

lemma to_digits_bin_chars: "set (to_digits 2 n) \<subseteq> {CHR ''0'', CHR ''1''}"
proof (induction n rule: less_induct)
  case (less n)
  show ?case
  proof (cases "n < 2")
    case True
    then have "to_digits 2 n = [digit_char n]" by (subst to_digits.simps) simp
    moreover have "n = 0 \<or> n = 1" using True by arith
    ultimately show ?thesis by (auto simp: digit_char_def)
  next
    case False
    then have t: "to_digits 2 n = to_digits 2 (n div 2) @ [digit_char (n mod 2)]"
      by (subst to_digits.simps) simp
    have "n div 2 < n" using False by simp
    then have "set (to_digits 2 (n div 2)) \<subseteq> {CHR ''0'', CHR ''1''}" by (rule less.IH)
    moreover have "n mod 2 = 0 \<or> n mod 2 = 1" by arith
    then have "digit_char (n mod 2) \<in> {CHR ''0'', CHR ''1''}"
      by (auto simp: digit_char_def)
    ultimately show ?thesis unfolding t by simp
  qed
qed

lemma signed_terms_no_sign:
  "CHR ''+'' \<notin> set s \<Longrightarrow> CHR ''-'' \<notin> set s \<Longrightarrow> signed_terms neg cur s = [(neg, cur @ s)]"
  by (induction s arbitrary: cur) auto

lemma signed_terms_bin: "signed_terms neg [] (''0b'' @ to_digits 2 n) = [(neg, ''0b'' @ to_digits 2 n)]"
proof -
  have "CHR ''+'' \<notin> set (''0b'' @ to_digits 2 n)" "CHR ''-'' \<notin> set (''0b'' @ to_digits 2 n)"
    using to_digits_bin_chars[of n] by auto
  then show ?thesis using signed_terms_no_sign[of "''0b'' @ to_digits 2 n" neg "[]"] by simp
qed

lemma sum_terms_bin:
  "sum_terms (signed_terms neg [] (''0b'' @ to_digits 2 n)) =
   Some (if neg then - int n else int n)"
  unfolding signed_terms_bin by (simp only: sum_terms.simps literal_value_bin) simp

lemma literal_sum_eval_bin: "literal_sum_eval (py_bin v) = IntVal v"
proof (cases "v < 0")
  case True
  define n where "n = nat (- v)"
  have v: "v = - int n" using True by (simp add: n_def)
  have "literal_sum_eval (CHR ''-'' # (''0b'' @ to_digits 2 n)) =
        (case sum_terms (signed_terms True [] (''0b'' @ to_digits 2 n)) of
           None \<Rightarrow> Raises | Some x \<Rightarrow> IntVal x)"
    unfolding literal_sum_eval_def by (simp only: list.case if_True refl)
  also have "\<dots> = IntVal (- int n)"
    unfolding sum_terms_bin by simp
  finally show ?thesis using True by (simp add: py_bin_def n_def)
next
  case False
  define n where "n = nat v"
  have v: "v = int n" using False by (simp add: n_def)
  have "literal_sum_eval (CHR ''0'' # (''b'' @ to_digits 2 n)) =
        (case sum_terms (signed_terms False [] (CHR ''0'' # (''b'' @ to_digits 2 n))) of
           None \<Rightarrow> Raises | Some x \<Rightarrow> IntVal x)"
    unfolding literal_sum_eval_def by (simp only: list.case) simp
  also have "CHR ''0'' # (''b'' @ to_digits 2 n) = ''0b'' @ to_digits 2 n" by simp
  finally have "literal_sum_eval (''0b'' @ to_digits 2 n) = IntVal (int n)"
    unfolding sum_terms_bin by simp
  then show ?thesis using False by (simp add: py_bin_def n_def)
qed

lemma python_eval_literal_sum: "python_eval literal_sum_eval"
proof -
  have "literal_sum_eval ''0b'' = Raises" by code_simp
  then show ?thesis by (simp add: python_eval_def literal_sum_eval_bin)
qed

lemma to_digits_bin_hd: "0 < n \<Longrightarrow> hd (to_digits 2 n) = CHR ''1''"
proof (induction n rule: less_induct)
  case (less n)
  show ?case
  proof (cases "n < 2")
    case True
    then have "to_digits 2 n = [digit_char n]" by (subst to_digits.simps) simp
    moreover have "n = 1" using True less.prems by simp
    ultimately show ?thesis by (simp add: digit_char_def)
  next
    case False
    then have t: "to_digits 2 n = to_digits 2 (n div 2) @ [digit_char (n mod 2)]"
      by (subst to_digits.simps) simp
    have "n div 2 < n" "0 < n div 2" using False by simp_all
    then have "hd (to_digits 2 (n div 2)) = CHR ''1''" by (rule less.IH)
    then show ?thesis unfolding t using to_digits_nonempty[of 2 "n div 2"] by simp
  qed
qed

text \<open>A parse of a string that starts with \<^verbatim>\<open>0b1\<close>, or of a \<^verbatim>\<open>0x\<close> string of positive
  value, reads a binary string that starts with 1.\<close>

lemma parse_polynomial_leading_one:
  assumes p: "parse_polynomial ev lit = Inr (w, taps)"
    and l: "startswith lit ''0b1'' \<or> (startswith lit ''0x'' \<and> (\<exists>v. 0 < v \<and> ev lit = IntVal v))"
  shows "taps \<noteq> [] \<and> hd taps = w - 1"
proof -
  from p obtain gp where
    w: "w = int (length (drop 2 gp))" and t: "taps = one_indices_of (drop 2 gp)"
    and nr: "ev gp \<noteq> Raises" and nz: "ev gp \<noteq> IntVal 0"
    and hex: "startswith lit ''0x'' \<longrightarrow> (\<exists>v. ev lit = IntVal v \<and> gp = py_bin v)"
    and bin: "\<not> startswith lit ''0x'' \<longrightarrow> gp = lit \<and> startswith lit ''0b''"
    by (rule parse_polynomial_Inr)
  have h: "drop 2 gp \<noteq> [] \<and> hd (drop 2 gp) = CHR ''1''"
  proof (cases "startswith lit ''0x''")
    case True
    have "\<not> startswith lit ''0b1''"
    proof
      assume "startswith lit ''0b1''"
      then obtain r where "lit = ''0b1'' @ r" using startswith_append by blast
      then have "startswith lit ''0b''" by (simp add: startswith_def)
      with True startswith_0b show False by blast
    qed
    then obtain v where v: "0 < v" "ev lit = IntVal v"
      using l by blast
    with hex True have g: "gp = py_bin v" by auto
    have "hd (to_digits 2 (nat v)) = CHR ''1''" using v(1) by (intro to_digits_bin_hd) simp
    then show ?thesis
      using v(1) g to_digits_nonempty[of 2 "nat v"] by (simp add: py_bin_def)
  next
    case False
    with bin l have "gp = lit" "startswith lit ''0b1''" by auto
    then obtain r where "gp = ''0b1'' @ r" using startswith_append by blast
    then show ?thesis by simp
  qed
  then have "CHR ''1'' \<in> set (drop 2 gp)"
    by (cases "drop 2 gp") auto
  then have "taps \<noteq> []" unfolding t by (rule one_indices_of_nonempty)
  moreover have "hd taps = w - 1" unfolding w t using h by (simp add: one_indices_of_hd)
  ultimately show ?thesis by simp
qed

lemma Max_sorted_desc:
  "taps \<noteq> [] \<Longrightarrow> sorted_wrt (>) taps \<Longrightarrow> Max (set taps) = hd (taps :: int list)"
proof -
  assume a: "taps \<noteq> []" "sorted_wrt (>) taps"
  then obtain t ts where e: "taps = t # ts" by (cases taps) auto
  with a(2) have "\<forall>x\<in>set ts. x \<le> t" by auto
  then have "Max (insert t (set ts)) = t"
    by (intro Max_eqI) auto
  then show ?thesis using e by simp
qed

lemma parse_polynomial_width:
  assumes p: "parse_polynomial ev lit = Inr (w, taps)"
  shows "if startswith lit ''0x''
         then \<exists>v. ev lit = IntVal v \<and> w = int (length (py_bin v)) - 2
         else w = int (length lit) - 2"
proof -
  from p obtain gp where
    w: "w = int (length (drop 2 gp))" and t: "taps = one_indices_of (drop 2 gp)"
    and nr: "ev gp \<noteq> Raises" and nz: "ev gp \<noteq> IntVal 0"
    and hex: "startswith lit ''0x'' \<longrightarrow> (\<exists>v. ev lit = IntVal v \<and> gp = py_bin v)"
    and bin: "\<not> startswith lit ''0x'' \<longrightarrow> gp = lit \<and> startswith lit ''0b''"
    by (rule parse_polynomial_Inr)
  show ?thesis
  proof (cases "startswith lit ''0x''")
    case True
    from hex True obtain v where v: "ev lit = IntVal v" "gp = py_bin v" by blast
    have "2 \<le> length (py_bin v)" by (simp add: py_bin_def)
    then show ?thesis using True v w by auto
  next
    case False
    then obtain r where "lit = ''0b'' @ r" using bin startswith_append by blast
    then have "2 \<le> length lit" by simp
    then show ?thesis using False bin w by auto
  qed
qed

text \<open>An integer literal that is accepted has a tap.\<close>

lemma literal_taps_nonempty:
  assumes e: "python_eval ev" and p: "parse_polynomial ev lit = Inr (w, taps)"
    and l: "literal_value lit = Some v" and v: "ev lit = IntVal v"
  shows "taps \<noteq> []"
proof -
  from p obtain gp where
    w: "w = int (length (drop 2 gp))" and t: "taps = one_indices_of (drop 2 gp)"
    and nr: "ev gp \<noteq> Raises" and nz: "ev gp \<noteq> IntVal 0"
    and hex: "startswith lit ''0x'' \<longrightarrow> (\<exists>v. ev lit = IntVal v \<and> gp = py_bin v)"
    and bin: "\<not> startswith lit ''0x'' \<longrightarrow> gp = lit \<and> startswith lit ''0b''"
    by (rule parse_polynomial_Inr)
  show ?thesis
  proof (cases "startswith lit ''0x''")
    case True
    with hex v have g: "gp = py_bin v" by auto
    have "ev gp = IntVal v" unfolding g using e by (simp add: python_eval_def)
    with nz have "v \<noteq> 0" by auto
    moreover have "0 \<le> v" using l by (rule literal_value_nonneg)
    ultimately have "0 < v" by simp
    then show ?thesis
      using parse_polynomial_leading_one[OF p] True v by blast
  next
    case False
    with bin have g: "gp = lit" and b: "startswith lit ''0b''" by auto
    have "int_literal 2 bin_digit (drop 2 lit) = Some v"
      using l b by (simp add: literal_value_def)
    moreover have "v \<noteq> 0" using nz v g by auto
    ultimately have "CHR ''1'' \<in> set (drop 2 lit)"
      by (rule int_literal_nonzero_has_one)
    then show ?thesis unfolding t g by (rule one_indices_of_nonempty)
  qed
qed

section \<open>The claims about the symbolic expander\<close>

text \<open>
  C9. \<^verbatim>\<open>xor_two_sets\<close> computes the symmetric difference of its two arguments (union
  minus intersection); a term combined with itself gives the empty term; the operator
  is commutative and associative.
\<close>

theorem xor_two_sets_algebra:
  "xor_two_sets A B = (A \<union> B) - (A \<inter> B) \<and>
   xor_two_sets A B = sym_diff A B \<and>
   xor_two_sets t t = {} \<and>
   xor_two_sets A B = xor_two_sets B A \<and>
   xor_two_sets (xor_two_sets A B) C = xor_two_sets A (xor_two_sets B C)"
  unfolding xor_two_sets_def sym_diff_def by blast

text \<open>
  C10. For a negative requested output width \<open>N\<close>, \<^verbatim>\<open>gen_random\<close> raises nothing and
  rejects nothing: it returns the empty schedule, as it does for \<open>N = 0\<close>.  This holds
  for every register length and tap list, validated or not.
\<close>

theorem gen_random_negative_width:
  "N < 0 \<Longrightarrow> gen_random w taps N = Inr [] \<and> gen_random w taps N = gen_random w taps 0"
  by (simp add: gen_random_def py_range_def)

theorem gen_random_negative_width_witness:
  "(- 3 :: int) < 0 \<and> gen_random 6 [5, 4, 2, 1] (- 3) = Inr [] \<and>
   gen_random 6 [5, 4, 2, 1] (- 3) = gen_random 6 [5, 4, 2, 1] 0"
proof -
  have h: "(- 3 :: int) < 0" by simp
  from gen_random_negative_width[OF h, of 6 "[5, 4, 2, 1]"] h show ?thesis by blast
qed

text \<open>
  C2. For every polynomial returned by \<^verbatim>\<open>parse_polynomial\<close>, whatever string it
  was parsed from and with taps or without, and every \<open>N \<ge> 0\<close>,
  \<^verbatim>\<open>gen_random\<close> raises nothing and returns the schedule of the specification's
  algorithm: \<open>N\<close> terms, the term of cycle \<open>k\<close> at position \<open>k\<close>, each the feedback term
  of the snapshot reached after \<open>k\<close> shifts from the snapshot with cell \<open>i = {i}\<close>;
  \<open>N = 0\<close> gives the empty schedule.
\<close>

theorem gen_random_refines_expander:
  assumes "python_eval ev" and "parse_polynomial ev lit = Inr (w, taps)" and "0 \<le> N"
  shows "gen_random w taps N = Inr (output_schedule (nat w) (map nat taps) (nat N)) \<and>
         length (output_schedule (nat w) (map nat taps) (nat N)) = nat N \<and>
         (\<forall>k<nat N. output_schedule (nat w) (map nat taps) (nat N) ! k =
            feedback_term (map nat taps) (snapshot_at k (map nat taps) (initial_snapshot (nat w)))) \<and>
         gen_random w taps 0 = Inr []"
proof -
  note v = parse_polynomial_valid[OF assms(1,2)]
  have "gen_random w taps N = Inr (output_schedule (nat w) (map nat taps) (nat N))"
    using v(3,2) by (rule gen_random_spec)
  moreover have "gen_random w taps 0 = Inr []"
    using gen_random_spec[OF v(3,2), of 0] by (simp add: output_schedule_def)
  ultimately show ?thesis
    by (simp add: output_schedule_def length_expand expand_nth)
qed

theorem gen_random_refines_expander_witness:
  "python_eval literal_sum_eval \<and>
   parse_polynomial literal_sum_eval ''0b110110'' = Inr (6, [5, 4, 2, 1]) \<and> (0::int) \<le> 3 \<and>
   gen_random 6 [5, 4, 2, 1] 3 = Inr [{1, 2, 4, 5}, {0, 1, 3, 4}, {0, 1, 3, 4, 5}] \<and>
   output_schedule (nat 6) (map nat [5, 4, 2, 1]) (nat 3) =
     [{1, 2, 4, 5}, {0, 1, 3, 4}, {0, 1, 3, 4, 5}]"
proof -
  note h0 = python_eval_literal_sum
  have h1: "parse_polynomial literal_sum_eval ''0b110110'' = Inr (6, [5, 4, 2, 1])" by code_simp
  have h2: "(0::int) \<le> 3" by simp
  have e: "output_schedule (nat 6) (map nat [5, 4, 2, 1]) (nat 3) =
           [{1, 2, 4, 5}, {0, 1, 3, 4}, {0, 1, 3, 4, 5}]" by code_simp
  from gen_random_refines_expander[OF h0 h1 h2]
  have "gen_random 6 [5, 4, 2, 1] 3 = Inr (output_schedule (nat 6) (map nat [5, 4, 2, 1]) (nat 3))"
    by blast
  then have "gen_random 6 [5, 4, 2, 1] 3 = Inr [{1, 2, 4, 5}, {0, 1, 3, 4}, {0, 1, 3, 4, 5}]"
    unfolding e .
  with h0 h1 h2 e show ?thesis by blast
qed

text \<open>
  C5. For every polynomial returned by \<^verbatim>\<open>parse_polynomial\<close> and every \<open>N \<ge> 1\<close>, the
  first term of the schedule is exactly the set of tap indices; for the literal
  \<^verbatim>\<open>0b110110\<close> (width 6, taps 5, 4, 2, 1) and \<open>N = 1\<close> it is \<open>{1, 2, 4, 5}\<close>.
\<close>

theorem first_cycle_is_taps:
  assumes "python_eval ev" and "parse_polynomial ev lit = Inr (w, taps)" and "1 \<le> N"
  shows "(\<exists>sched. gen_random w taps N = Inr sched \<and> 0 < length sched \<and> sched ! 0 = set taps) \<and>
         parse_polynomial literal_sum_eval ''0b110110'' = Inr (6, [5, 4, 2, 1]) \<and>
         gen_random 6 [5, 4, 2, 1] 1 = Inr [{1, 2, 4, 5}]"
proof -
  note v = parse_polynomial_valid[OF assms(1,2)]
  let ?s = "output_schedule (nat w) (map nat taps) (nat N)"
  have n: "0 < nat N" using assms(3) by simp
  have "gen_random w taps N = Inr ?s"
    using v(3,2) by (rule gen_random_spec)
  moreover have "?s ! 0 = set taps"
    using v(1,2) n by (rule first_term)
  moreover have "0 < length ?s"
    using n by (simp add: output_schedule_def length_expand)
  moreover have "parse_polynomial literal_sum_eval ''0b110110'' = Inr (6, [5, 4, 2, 1])"
    by code_simp
  moreover have "gen_random 6 [5, 4, 2, 1] 1 = Inr [{1, 2, 4, 5}]" by code_simp
  ultimately show ?thesis by blast
qed

theorem first_cycle_is_taps_witness:
  "python_eval literal_sum_eval \<and>
   parse_polynomial literal_sum_eval ''0x36'' = Inr (6, [5, 4, 2, 1]) \<and> (1::int) \<le> 4 \<and>
   (\<exists>sched. gen_random 6 [5, 4, 2, 1] 4 = Inr sched \<and> 0 < length sched \<and>
      sched ! 0 = set [5, 4, 2, 1])"
proof -
  note h0 = python_eval_literal_sum
  have h1: "parse_polynomial literal_sum_eval ''0x36'' = Inr (6, [5, 4, 2, 1])" by code_simp
  have h2: "(1::int) \<le> 4" by simp
  from first_cycle_is_taps[OF h0 h1 h2] h0 h1 h2 show ?thesis by blast
qed

text \<open>
  C1. For every polynomial returned by \<^verbatim>\<open>parse_polynomial\<close>, every seed in
  \<open>{0,1}\<^sup>w\<close> and every cycle \<open>k\<close> below the requested width: the XOR of the seed bits at
  the indices of term \<open>k\<close> of the schedule is the feedback bit that the bit-level
  simulation of the sequential step rule computes at cycle \<open>k\<close> from that seed.
\<close>

theorem symbolic_matches_simulation:
  assumes "python_eval ev" and "parse_polynomial ev lit = Inr (w, taps)"
    and "length seed = nat w" and "int k < N"
  shows "\<exists>sched. gen_random w taps N = Inr sched \<and> k < length sched \<and>
           xor_seed_bits seed (sched ! k) = sim_feedback (map nat taps) seed k"
proof -
  note v = parse_polynomial_valid[OF assms(1,2)]
  let ?s = "output_schedule (nat w) (map nat taps) (nat N)"
  have k: "k < nat N" using assms(4) by simp
  have "gen_random w taps N = Inr ?s"
    using v(3,2) by (rule gen_random_spec)
  moreover have "k < length ?s"
    using k by (simp add: output_schedule_def length_expand)
  moreover have "xor_seed_bits seed (?s ! k) = sim_feedback (map nat taps) seed k"
    using assms(3) taps_nat_range[OF v(2)] k by (rule schedule_agrees(2))
  ultimately show ?thesis by blast
qed

theorem symbolic_matches_simulation_witness:
  "python_eval literal_sum_eval \<and>
   parse_polynomial literal_sum_eval ''0b110110'' = Inr (6, [5, 4, 2, 1]) \<and>
   length [True, False, True, True, False, False] = nat 6 \<and> int 4 < 8 \<and>
   (\<exists>sched. gen_random 6 [5, 4, 2, 1] 8 = Inr sched \<and> 4 < length sched \<and>
      xor_seed_bits [True, False, True, True, False, False] (sched ! 4) =
      sim_feedback (map nat [5, 4, 2, 1]) [True, False, True, True, False, False] 4)"
proof -
  note h0 = python_eval_literal_sum
  have h1: "parse_polynomial literal_sum_eval ''0b110110'' = Inr (6, [5, 4, 2, 1])" by code_simp
  have h2: "length [True, False, True, True, False, False] = nat 6" by simp
  have h3: "int 4 < 8" by simp
  from symbolic_matches_simulation[OF h0 h1 h2 h3] h0 h1 h2 h3 show ?thesis by blast
qed




section \<open>The claims about the parser\<close>

text \<open>
  C4, as stated: for every accepted string the taps are non-empty and the highest tap
  is \<open>width - 1\<close>, the width being the bit length of the value.  The literal
  \<^verbatim>\<open>0b0101\<close> is accepted with width 4 and taps 2, 0: its highest tap is 2, and the
  canonical binary form of its value 5 has three digits.  The string \<^verbatim>\<open>0b0+0x2\<close> is
  accepted (it starts with \<^verbatim>\<open>0b\<close> and evaluates to 2) with width 5 and no tap at all.
\<close>

theorem leading_zero_counterexample:
  "parse_polynomial literal_sum_eval ''0b0101'' = Inr (4, [2, 0]) \<and>
   Max (set [2, 0 :: int]) \<noteq> 4 - 1 \<and>
   literal_sum_eval ''0b0101'' = IntVal 5 \<and> py_bin 5 = ''0b101'' \<and>
   int (length (drop 2 (py_bin 5))) \<noteq> 4 \<and>
   literal_sum_eval ''0b0+0x2'' = IntVal 2 \<and>
   parse_polynomial literal_sum_eval ''0b0+0x2'' = Inr (5, [])"
  by code_simp

text \<open>
  C4, amended.  For every string accepted by \<^verbatim>\<open>parse_polynomial\<close>: every tap lies in
  \<open>[0, width)\<close>; the width is the number of characters after the first two of the
  binary string, which is the string itself or, for a string that starts with \<^verbatim>\<open>0x\<close>,
  \<^verbatim>\<open>bin\<close> of its value; the taps are non-empty for every integer literal; and they are
  non-empty with highest tap \<open>width - 1\<close> whenever the string starts with \<^verbatim>\<open>0b1\<close> or is
  a \<^verbatim>\<open>0x\<close> string of positive value.
\<close>

theorem parse_polynomial_taps:
  assumes "python_eval ev" and "parse_polynomial ev lit = Inr (w, taps)"
  shows "(\<forall>t\<in>set taps. 0 \<le> t \<and> t < w) \<and>
         (if startswith lit ''0x''
          then \<exists>v. ev lit = IntVal v \<and> w = int (length (py_bin v)) - 2
          else w = int (length lit) - 2) \<and>
         (\<forall>v. literal_value lit = Some v \<and> ev lit = IntVal v \<longrightarrow> taps \<noteq> []) \<and>
         (startswith lit ''0b1'' \<or> (startswith lit ''0x'' \<and> (\<exists>v. 0 < v \<and> ev lit = IntVal v)) \<longrightarrow>
            taps \<noteq> [] \<and> Max (set taps) = w - 1)"
proof -
  note v = parse_polynomial_valid[OF assms]
  have "taps \<noteq> [] \<and> Max (set taps) = w - 1"
    if "startswith lit ''0b1'' \<or> (startswith lit ''0x'' \<and> (\<exists>v. 0 < v \<and> ev lit = IntVal v))"
    using parse_polynomial_leading_one[OF assms(2) that] Max_sorted_desc[OF _ v(1)] by simp
  moreover have "taps \<noteq> []" if "literal_value lit = Some v" "ev lit = IntVal v" for v
    using assms that by (rule literal_taps_nonempty)
  ultimately show ?thesis
    using v(2) parse_polynomial_width[OF assms(2)] by blast
qed

theorem parse_polynomial_taps_witness:
  "python_eval literal_sum_eval \<and>
   parse_polynomial literal_sum_eval ''0x36'' = Inr (6, [5, 4, 2, 1]) \<and>
   startswith ''0x36'' ''0x'' \<and> literal_value ''0x36'' = Some 54 \<and>
   literal_sum_eval ''0x36'' = IntVal 54 \<and> (0::int) < 54 \<and>
   (\<exists>v. literal_sum_eval ''0x36'' = IntVal v \<and> (6::int) = int (length (py_bin v)) - 2) \<and>
   [5, 4, 2, 1 :: int] \<noteq> [] \<and>
   Max (set [5, 4, 2, 1 :: int]) = 6 - 1"
proof -
  note h0 = python_eval_literal_sum
  have h1: "parse_polynomial literal_sum_eval ''0x36'' = Inr (6, [5, 4, 2, 1])" by code_simp
  have h2: "startswith ''0x36'' ''0x''" by code_simp
  have h3: "literal_value ''0x36'' = Some 54" by code_simp
  have h4: "literal_sum_eval ''0x36'' = IntVal 54" by code_simp
  have h5: "(0::int) < 54" by simp
  from parse_polynomial_taps[OF h0 h1] h2
  have a: "\<exists>v. literal_sum_eval ''0x36'' = IntVal v \<and> (6::int) = int (length (py_bin v)) - 2"
    by (simp only: if_True)
  from parse_polynomial_taps[OF h0 h1] h2 h4 h5
  have b: "[5, 4, 2, 1 :: int] \<noteq> [] \<and> Max (set [5, 4, 2, 1 :: int]) = 6 - 1"
    by blast
  show ?thesis using h0 h1 h2 h3 h4 h5 a b by blast
qed




section \<open>The emitted text\<close>

text \<open>
  C7.  The claim asks that the feedback equation and the shift concatenation index the
  declared register, the output port \<^verbatim>\<open>lfsr\<close>.  The text \<^verbatim>\<open>gen_verilog\<close> of
  \<^verbatim>\<open>vgen_lfsr.py\<close> writes for \<^verbatim>\<open>0b110110\<close> declares \<^verbatim>\<open>lfsr\<close> and assigns to \<^verbatim>\<open>lfsr\<close>, but
  both expressions index \<^verbatim>\<open>lsfr\<close>, an identifier the module never declares.
\<close>

theorem sequential_text_reads_lsfr:
  "parse_polynomial literal_sum_eval ''0b110110'' = Inr (6, [5, 4, 2, 1]) \<and>
   lfsr_code 6 [5, 4, 2, 1] ''vgen'' = Inr (concat (map (\<lambda>l. l @ [CHR 0x0A])
     [replicate 80 CHR ''/'',
      ''///// Generated code. Don't modify! '',
      ''///// Author: Anh Tran (Andrew) '',
      ''///// This module computes 6-bit LFSR bits from an input seed '',
      ''///// based on the LFSR polynomial: x^6 + x^5 + x^3 + x^2 + 1 '',
      replicate 80 CHR ''/'',
      ''module vgen_lfsr_6_110110 ('',
      ''    input    clk,'',
      ''    input    rst,'',
      '''',
      ''    input [6-1:0]   seed, '',
      ''    output [6-1:0]  lfsr'',
      ''    );'',
      '''',
      ''    logic    fb; // feedback bit'',
      ''    assign fb = lsfr[5] ^ lsfr[4] ^ lsfr[2] ^ lsfr[1];'',
      '''',
      ''    always @(posedge clk) begin'',
      ''        if (rst) begin'',
      ''            lfsr <= seed;'',
      ''        end'',
      ''        else begin'',
      ''            lfsr <= {lsfr[4:0], fb};'',
      ''        end'',
      ''    end'',
      '''',
      ''endmodule'']))"
  by code_simp

section \<open>The parallel module's assignment statements\<close>

lemma py_range_from_one: "py_range_from 1 (int n) = map int [1..<n]"
proof -
  have "map (\<lambda>j. 1 + int j) [0..<n - 1] = map int (map Suc [0..<n - 1])"
    by simp
  also have "map Suc [0..<n - 1] = [1..<n]"
    by (cases n) (simp_all add: map_Suc_upt del: upt_Suc)
  finally show ?thesis
    by (simp add: py_range_from_def nat_diff_distrib' del: upt_Suc)
qed

lemma chain_rest_drop:
  "a \<le> length xs \<Longrightarrow>
   chain_rest xs (map int [a..<length xs]) =
   Inr (concat (map (\<lambda>i. '' ^ seed['' @ py_str i @ '']'') (drop a xs)))"
proof (induction "length xs - a" arbitrary: a)
  case 0
  then show ?case by simp
next
  case (Suc d)
  then have a: "a < length xs" by simp
  then have u: "[a..<length xs] = a # [Suc a..<length xs]"
    by (simp add: upt_conv_Cons)
  have g: "py_get xs (int a) = Inr (xs ! a)"
    using a by (simp add: py_get_def py_index_def)
  have d: "drop a xs = xs ! a # drop (Suc a) xs"
    using a by (simp add: Cons_nth_drop_Suc)
  have "d = length xs - Suc a" using Suc.hyps(2) by simp
  moreover have "Suc a \<le> length xs" using a by simp
  ultimately have "chain_rest xs (map int [Suc a..<length xs]) =
      Inr (concat (map (\<lambda>i. '' ^ seed['' @ py_str i @ '']'') (drop (Suc a) xs)))"
    by (rule Suc.hyps(1))
  then show ?case unfolding u d using g by simp
qed

lemma xor_chain_Cons:
  "xor_chain (i # js) =
   ''seed['' @ py_str i @ '']'' @ concat (map (\<lambda>j. '' ^ seed['' @ py_str j @ '']'') js)"
  by (induction js arbitrary: i) simp_all

lemma rand_assign_stmt:
  assumes o: "iteration_order to_list" and k: "k < length rand_out"
    and f: "finite (rand_out ! k)" and n: "rand_out ! k \<noteq> {}"
  shows "rand_assign to_list rand_out (int k) = Inr (assign_stmt k (to_list (rand_out ! k)))"
proof -
  let ?xs = "to_list (rand_out ! k)"
  have s: "set ?xs = rand_out ! k" and d: "distinct ?xs"
    using o f by (simp_all add: iteration_order_def)
  have c: "card (rand_out ! k) = length ?xs"
    using distinct_card[OF d] s by simp
  from s n obtain i js where e: "?xs = i # js" by (cases ?xs) auto
  have g: "py_get rand_out (int k) = Inr (rand_out ! k)"
    using k by (simp add: py_get_def py_index_def)
  have g0: "py_get ?xs 0 = Inr i"
    using e by (simp add: py_get_def py_index_def)
  have "chain_rest ?xs (map int [1..<length ?xs]) =
        Inr (concat (map (\<lambda>i. '' ^ seed['' @ py_str i @ '']'') (drop 1 ?xs)))"
    using e by (intro chain_rest_drop) simp
  then have r: "chain_rest ?xs (py_range_from 1 (int (card (rand_out ! k)))) =
        Inr (concat (map (\<lambda>i. '' ^ seed['' @ py_str i @ '']'') js))"
    unfolding c py_range_from_one using e by simp
  show ?thesis
    unfolding rand_assign_def assign_stmt_def using g g0 r
    by (simp add: e xor_chain_Cons)
qed

lemma rand_assigns_stmts:
  assumes o: "iteration_order to_list"
  shows "\<forall>k\<in>set ks. k < length rand_out \<and> finite (rand_out ! k) \<and> rand_out ! k \<noteq> {} \<Longrightarrow>
         rand_assigns to_list rand_out (map int ks) =
         Inr (concat (map (\<lambda>k. assign_stmt k (to_list (rand_out ! k))) ks))"
proof (induction ks)
  case Nil
  then show ?case by simp
next
  case (Cons k ks)
  have "rand_assign to_list rand_out (int k) = Inr (assign_stmt k (to_list (rand_out ! k)))"
    using Cons.prems by (intro rand_assign_stmt[OF o]) simp_all
  then show ?case using Cons by simp
qed

lemma iteration_order_ascending: "iteration_order ascending_order"
  by (simp add: iteration_order_def ascending_order_def)

lemma iteration_order_descending: "iteration_order descending_order"
  by (simp add: iteration_order_def descending_order_def)

text \<open>
  C6, as stated: each of the \<open>N\<close> statements is an XOR chain over the indices of its
  term, in ascending order.  The script lists a term in the order \<^verbatim>\<open>list\<close> gives and
  never sorts.  For \<^verbatim>\<open>0x101\<close> (width 9, taps 8, 0) the first term is \<open>{0, 8}\<close>; listed
  as 8, 0, an order in which every element occurs once, the statement written is
  \<^verbatim>\<open>assign out[0] = seed[8] ^ seed[0];\<close>.  And for the accepted string \<^verbatim>\<open>0b0+0x2\<close>
  (width 5, no taps) the terms are empty: \<^verbatim>\<open>list(rand_out[ww])[0]\<close> raises and no
  statement is written.
\<close>

theorem chain_order_counterexample:
  "parse_polynomial literal_sum_eval ''0x101'' = Inr (9, [8, 0]) \<and>
   gen_random 9 [8, 0] 1 = Inr [{0, 8}] \<and>
   iteration_order descending_order \<and>
   descending_order {0, 8} = [8, 0] \<and>
   rand_assign descending_order [{0, 8}] 0 =
     Inr (''    assign out[0] = seed[8] ^ seed[0];'' @ [CHR 0x0A]) \<and>
   \<not> sorted [8, 0 :: int] \<and>
   parse_polynomial literal_sum_eval ''0b0+0x2'' = Inr (5, []) \<and>
   gen_random 5 [] 1 = Inr [{}] \<and>
   rand_code descending_order [{}] 5 [] ''vgen'' ''0x0'' = Inl IndexError"
proof -
  have "parse_polynomial literal_sum_eval ''0x101'' = Inr (9, [8, 0])" by code_simp
  moreover have "parse_polynomial literal_sum_eval ''0b0+0x2'' = Inr (5, [])" by code_simp
  moreover have "gen_random 5 [] 1 = Inr [{}]" by code_simp
  moreover have "rand_code descending_order [{}] 5 [] ''vgen'' ''0x0'' = Inl IndexError"
    by code_simp
  moreover have "gen_random 9 [8, 0] 1 = Inr [{0, 8}]" by code_simp
  moreover have "descending_order {0, 8} = [8, 0]" by code_simp
  moreover have "rand_assign descending_order [{0, 8}] 0 =
     Inr (''    assign out[0] = seed[8] ^ seed[0];'' @ [CHR 0x0A])" by code_simp
  moreover have "\<not> sorted [8, 0 :: int]" by simp
  ultimately show ?thesis using iteration_order_descending by blast
qed

text \<open>
  C6, amended.  For every polynomial with at least one tap returned by
  \<^verbatim>\<open>parse_polynomial\<close> (every accepted integer literal has one) and every order in
  which sets list their elements once each, the body of the parallel module is one
  assignment statement per term of the schedule, \<open>N\<close> of them for \<open>N \<ge> 0\<close>, in cycle
  order; statement \<open>k\<close> drives output bit \<open>k\<close> by the XOR chain over exactly the
  indices of term \<open>k\<close>, each once, in the order the set lists them.
\<close>

theorem parallel_text_chains:
  assumes "iteration_order to_list" and "python_eval ev"
    and "parse_polynomial ev lit = Inr (w, taps)" and "taps \<noteq> []"
    and "gen_random w taps N = Inr sched"
  shows "rand_code to_list sched w taps prefix sfx =
           Inr (rand_header sched w taps prefix sfx @
                concat (map (\<lambda>k. assign_stmt k (to_list (sched ! k))) [0..<length sched]) @
                [CHR 0x0A] @ ''endmodule'' @ [CHR 0x0A]) \<and>
         length sched = nat N \<and>
         (\<forall>k<length sched. set (to_list (sched ! k)) = sched ! k \<and> distinct (to_list (sched ! k)))"
proof -
  note v = parse_polynomial_valid[OF assms(2,3)]
  have s: "sched = output_schedule (nat w) (map nat taps) (nat N)"
    using gen_random_spec[OF v(3,2), of N] assms(5) by simp
  have l: "length sched = nat N"
    unfolding s by (simp add: output_schedule_def length_expand)
  have t: "finite (sched ! k) \<and> sched ! k \<noteq> {}" if "k < length sched" for k
  proof -
    have k: "k < nat N" using that l by simp
    have "sched ! k \<subseteq> {0..<int (nat w)}"
      unfolding s using taps_nat_range[OF v(2)] k by (rule schedule_subset)
    then have "finite (sched ! k)" by (rule finite_subset) simp
    moreover have "sched ! k \<noteq> {}"
      unfolding s using assms(4) v(1,2) k by (rule schedule_nonempty)
    ultimately show ?thesis by simp
  qed
  have "rand_assigns to_list sched (map int [0..<length sched]) =
        Inr (concat (map (\<lambda>k. assign_stmt k (to_list (sched ! k))) [0..<length sched]))"
    using t by (intro rand_assigns_stmts[OF assms(1)]) simp
  then have "rand_code to_list sched w taps prefix sfx =
           Inr (rand_header sched w taps prefix sfx @
                concat (map (\<lambda>k. assign_stmt k (to_list (sched ! k))) [0..<length sched]) @
                [CHR 0x0A] @ ''endmodule'' @ [CHR 0x0A])"
    unfolding rand_code_def py_range_int by simp
  moreover have "\<forall>k<length sched. set (to_list (sched ! k)) = sched ! k \<and> distinct (to_list (sched ! k))"
    using t assms(1) by (simp add: iteration_order_def)
  ultimately show ?thesis using l by blast
qed

theorem parallel_text_chains_witness:
  "iteration_order ascending_order \<and> python_eval literal_sum_eval \<and>
   parse_polynomial literal_sum_eval ''0b110110'' = Inr (6, [5, 4, 2, 1]) \<and>
   [5, 4, 2, 1 :: int] \<noteq> [] \<and>
   gen_random 6 [5, 4, 2, 1] 2 = Inr [{1, 2, 4, 5}, {0, 1, 3, 4}] \<and>
   rand_code ascending_order [{1, 2, 4, 5}, {0, 1, 3, 4}] 6 [5, 4, 2, 1] ''vgen'' ''0x36'' =
     Inr (rand_header [{1, 2, 4, 5}, {0, 1, 3, 4}] 6 [5, 4, 2, 1] ''vgen'' ''0x36'' @
          ''    assign out[0] = seed[1] ^ seed[2] ^ seed[4] ^ seed[5];'' @ [CHR 0x0A] @
          ''    assign out[1] = seed[0] ^ seed[1] ^ seed[3] ^ seed[4];'' @ [CHR 0x0A] @
          [CHR 0x0A] @ ''endmodule'' @ [CHR 0x0A]) \<and>
   length [{1, 2, 4, 5}, {0, 1, 3, 4 :: int}] = nat 2"
proof -
  let ?s = "[{1, 2, 4, 5}, {0, 1, 3, 4 :: int}]"
  have h1: "iteration_order ascending_order" by (rule iteration_order_ascending)
  note h0 = python_eval_literal_sum
  have h2: "parse_polynomial literal_sum_eval ''0b110110'' = Inr (6, [5, 4, 2, 1])" by code_simp
  have h4: "[5, 4, 2, 1 :: int] \<noteq> []" by simp
  have h3: "gen_random 6 [5, 4, 2, 1] 2 = Inr ?s" by code_simp
  have e: "concat (map (\<lambda>k. assign_stmt k (ascending_order (?s ! k))) [0..<length ?s]) =
           ''    assign out[0] = seed[1] ^ seed[2] ^ seed[4] ^ seed[5];'' @ [CHR 0x0A] @
           ''    assign out[1] = seed[0] ^ seed[1] ^ seed[3] ^ seed[4];'' @ [CHR 0x0A]"
    by code_simp
  from parallel_text_chains[OF h1 h0 h2 h4 h3, of "''vgen''" "''0x36''"]
  have c: "rand_code ascending_order ?s 6 [5, 4, 2, 1] ''vgen'' ''0x36'' =
           Inr (rand_header ?s 6 [5, 4, 2, 1] ''vgen'' ''0x36'' @
                concat (map (\<lambda>k. assign_stmt k (ascending_order (?s ! k))) [0..<length ?s]) @
                [CHR 0x0A] @ ''endmodule'' @ [CHR 0x0A])"
    and l: "length ?s = nat 2"
    by blast+
  show ?thesis using h1 h0 h2 h3 c[unfolded e] l by simp
qed


end
